theory Spec2Isabelle
  imports Main "HOL-Library.Word" "HOL-Library.Multiset"
begin

section \<open>Values shared by the reader and the harvester\<close>

text \<open>
  Go's fixed-width integers are words: \<open>int64\<close> and \<open>uint64\<close> are 64-bit, \<open>int32\<close> is
  32-bit; \<open>+\<close> wraps as Go's does, \<open>sint\<close> reads the signed value. A Go \<open>string\<close> is a
  sequence of bytes, here a \<open>string\<close> (a list of 8-bit characters), so \<open>length\<close> is Go's
  \<open>len\<close>.
\<close>

type_synonym int64 = "64 word"
type_synonym uint64 = "64 word"
type_synonym int32 = "32 word"

text \<open>Error numbers the operating system answers a system call with.\<close>

datatype errno = ENOENT | EACCES | EINVAL | EIO

text \<open>
  The error values that travel through the package: its own four (reader.go, the
  \<open>var\<close> block), \<open>io.EOF\<close>, the two errors of \<open>bufio\<close>, an \<open>*fs.PathError\<close> around
  an error number, \<open>os.ErrClosed\<close> (use of a closed handle), the errors of
  \<open>encoding/json\<close>, and \<open>EmptyWaitFiles\<close> of the harvester.
\<close>

datatype error =
    ErrorRename
  | ErrorRemoved
  | ErrorEmpty
  | ErrorClosed
  | EOF
  | ErrBufferFull
  | ErrTooLong
  | PathError errno
  | ErrClosed
  | SyntaxError
  | InvalidUnmarshalError
  | EmptyWaitFiles

text \<open>\<open>errors.Is(err, os.ErrNotExist)\<close> and \<open>errors.Is(err, io.EOF)\<close>.\<close>

definition Is_ErrNotExist :: "error \<Rightarrow> bool" where
  "Is_ErrNotExist err = (err = PathError ENOENT)"

definition Is_EOF :: "error \<Rightarrow> bool" where
  "Is_EOF err = (err = EOF)"

text \<open>
  How a call ends: it returns a value (\<open>Ok\<close>) or an error (\<open>Err\<close>), it panics (a nil
  pointer is dereferenced, a type assertion on a nil interface fails), or it waits on the
  condition variable and does not return in a sequential run (\<open>Blocked\<close>).
\<close>

datatype 'a result = Ok 'a | Err error | Panic | Blocked

section \<open>The file-identity probe (sys.go)\<close>

record Stat_t =
  Ino :: uint64
  Dev :: uint64
  Nlink :: uint64

text \<open>An \<open>os.FileInfo\<close> of a directory entry: base name, modification time, \<open>Sys()\<close>.\<close>

record FileInfo =
  Name :: string
  ModTime :: int
  Sys :: Stat_t

record StateOS =
  Inode :: uint64
  Device :: uint64

definition GetOSState :: "FileInfo \<Rightarrow> StateOS" where
  "GetOSState info = \<lparr>Inode = Ino (Sys info), Device = Dev (Sys info)\<rparr>"

definition isSame :: "StateOS \<Rightarrow> StateOS \<Rightarrow> bool" where
  "isSame fs state = (Inode fs = Inode state \<and> Device fs = Device state)"

text \<open>\<open>strconv.AppendUint(buf, n, 10)\<close>: the decimal digits of \<open>n\<close>, most significant first.\<close>

fun AppendUint10 :: "nat \<Rightarrow> string" where
  "AppendUint10 n =
     (if n < 10 then [''0123456789'' ! n]
      else AppendUint10 (n div 10) @ [''0123456789'' ! (n mod 10)])"

declare AppendUint10.simps [simp del]

definition String_StateOS :: "StateOS \<Rightarrow> string" where
  "String_StateOS fs = AppendUint10 (unat (Inode fs)) @ ''-'' @ AppendUint10 (unat (Device fs))"

text \<open>
  The file system as the package sees it: what opening a path for reading answers (an
  error number, or the file object the path names now), each file object's
  \<open>stat\<close> record and bytes, and the largest file offset the file system accepts in a
  seek (on ext4 with blocks of 4 KiB, \<open>2^44 - 4096\<close>). A file object lives on while a
  handle holds it, also after its last name is gone (\<open>Nlink = 0\<close>).
\<close>

record inode =
  istat :: Stat_t
  ibytes :: string

record filesystem =
  resolve :: "string \<Rightarrow> errno + nat"
  inodes :: "nat \<Rightarrow> inode"
  maxbytes :: nat

text \<open>An \<open>*os.File\<close>: the file object it holds, its open flag, its offset, whether closed.\<close>

record File =
  fname :: string
  fnode :: nat
  fflag :: nat
  foffset :: nat
  fclosed :: bool

definition O_RDONLY :: nat where
  "O_RDONLY = 0"

definition OpenFile :: "filesystem \<Rightarrow> string \<Rightarrow> nat \<Rightarrow> nat \<Rightarrow> error + File" where
  "OpenFile fs path flag perm =
     (case resolve fs path of
        Inl e \<Rightarrow> Inl (PathError e)
      | Inr i \<Rightarrow> Inr \<lparr>fname = path, fnode = i, fflag = flag, foffset = 0, fclosed = False\<rparr>)"

definition readOpen :: "filesystem \<Rightarrow> string \<Rightarrow> error + File" where
  "readOpen fs path = OpenFile fs path O_RDONLY 0"

text \<open>
  \<open>f.Seek(off, io.SeekStart)\<close> on a file system whose largest file offset is
  \<open>limit\<close>: the handle's offset becomes \<open>off\<close>; an \<open>off\<close> that is negative or beyond
  the limit is refused with \<open>EINVAL\<close> and a closed handle with \<open>os.ErrClosed\<close>, the
  offset staying where it was.
\<close>

definition Seek :: "nat \<Rightarrow> File \<Rightarrow> int64 \<Rightarrow> File \<times> error option" where
  "Seek limit f off =
     (if fclosed f then (f, Some ErrClosed)
      else if sint off < 0 \<or> limit < nat (sint off) then (f, Some (PathError EINVAL))
      else (f\<lparr>foffset := nat (sint off)\<rparr>, None))"

text \<open>\<open>f.Stat()\<close> fails on a closed handle; \<open>f.Close()\<close> fails when called a second time.\<close>

definition Stat :: "filesystem \<Rightarrow> File \<Rightarrow> error + Stat_t" where
  "Stat fs f = (if fclosed f then Inl ErrClosed else Inr (istat (inodes fs (fnode f))))"

definition Close_File :: "File \<Rightarrow> File \<times> error option" where
  "Close_File f = (if fclosed f then (f, Some ErrClosed) else (f\<lparr>fclosed := True\<rparr>, None))"

text \<open>What a \<open>Read\<close> on the handle is served from: its error, or the file object's bytes.\<close>

definition source_of :: "filesystem \<Rightarrow> File \<Rightarrow> error + string" where
  "source_of fs f = (if fclosed f then Inl ErrClosed else Inr (ibytes (inodes fs (fnode f))))"

definition isRemoved :: "filesystem \<Rightarrow> File \<Rightarrow> bool" where
  "isRemoved fs f = (case Stat fs f of Inl err \<Rightarrow> True | Inr sysStat \<Rightarrow> Nlink sysStat = 0)"

text \<open>\<open>os.SameFile\<close> on the two \<open>Stat\<close> results, a failed \<open>Stat\<close> giving \<open>nil\<close>.\<close>

definition SameFile :: "error + Stat_t \<Rightarrow> error + Stat_t \<Rightarrow> bool" where
  "SameFile as bs =
     (case as of
        Inl e \<Rightarrow> False
      | Inr s1 \<Rightarrow> (case bs of Inl e \<Rightarrow> False | Inr s2 \<Rightarrow> Dev s1 = Dev s2 \<and> Ino s1 = Ino s2))"

definition isSameFile :: "filesystem \<Rightarrow> File \<Rightarrow> File \<Rightarrow> bool" where
  "isSameFile fs a b = SameFile (Stat fs a) (Stat fs b)"

section \<open>The buffered readers of the standard library\<close>

text \<open>
  Both line readers read the file through a buffer of package \<open>bufio\<close>. The buffer is
  modelled by what it delivers: the reader keeps the file offset of the first byte it
  has not handed out yet, and a call looks at the bytes the file holds from there on, as
  many as the buffer can take. Bytes appended to the file between two calls are seen by
  the later call, as a later \<open>Read\<close> on the handle would see them.
\<close>

definition delimLabel :: char where
  "delimLabel = CHR 0x0A"

definition defaultBufSize :: nat where
  "defaultBufSize = 4096"

definition MaxScanTokenSize :: nat where
  "MaxScanTokenSize = 65536"

text \<open>\<open>bytes.IndexByte\<close>: the index of the first \<open>c\<close>, if any.\<close>

definition IndexByte :: "string \<Rightarrow> char \<Rightarrow> nat option" where
  "IndexByte s c = (if c \<in> set s then Some (length (takeWhile (\<lambda>x. x \<noteq> c) s)) else None)"

record bufio_Reader =
  r_pos :: nat

definition NewReader :: "File \<Rightarrow> bufio_Reader" where
  "NewReader f = \<lparr>r_pos = foffset f\<rparr>"

text \<open>
  \<open>(*bufio.Reader).ReadSlice(delim)\<close>: the bytes up to and including the first
  delimiter; \<open>ErrBufferFull\<close> with the whole buffer when it fills up before a delimiter
  shows; the rest of the file with \<open>io.EOF\<close> when the file ends first. The bytes returned
  are consumed in each case. A failing \<open>Read\<close> is passed on.
\<close>

definition ReadSlice :: "error + string \<Rightarrow> bufio_Reader \<Rightarrow> char \<Rightarrow> string \<times> error option \<times> bufio_Reader" where
  "ReadSlice src b delim =
     (case src of
        Inl e \<Rightarrow> ([], Some e, b)
      | Inr bytes \<Rightarrow>
          (let window = take defaultBufSize (drop (r_pos b) bytes) in
           case IndexByte window delim of
             Some i \<Rightarrow> (take (i + 1) window, None, b\<lparr>r_pos := r_pos b + (i + 1)\<rparr>)
           | None \<Rightarrow>
               (window,
                Some (if defaultBufSize \<le> length window then ErrBufferFull else EOF),
                b\<lparr>r_pos := r_pos b + length window\<rparr>)))"

text \<open>
  A \<open>bufio.Scanner\<close> with the split function \<open>bufio.ScanLines\<close>. Its error is sticky:
  once \<open>s_err\<close> is set (also to \<open>io.EOF\<close>) the scanner reads the file no more and only
  hands out what it still holds (\<open>s_held\<close>). \<open>s_token\<close> is the last token, read by
  \<open>Text\<close>.
\<close>

record bufio_Scanner =
  s_pos :: nat
  s_err :: "error option"
  s_held :: string
  s_token :: string

definition NewScanner :: "File \<Rightarrow> bufio_Scanner" where
  "NewScanner f = \<lparr>s_pos = foffset f, s_err = None, s_held = [], s_token = []\<rparr>"

definition dropCR :: "string \<Rightarrow> string" where
  "dropCR data = (if data \<noteq> [] \<and> last data = CHR 0x0D then butlast data else data)"

text \<open>\<open>bufio.ScanLines(data, atEOF)\<close>: how far to advance, and the token if there is one.\<close>

definition ScanLines :: "string \<Rightarrow> bool \<Rightarrow> nat \<times> string option" where
  "ScanLines data atEOF =
     (if atEOF \<and> data = [] then (0, None)
      else case IndexByte data (CHR 0x0A) of
             Some i \<Rightarrow> (i + 1, Some (dropCR (take i data)))
           | None \<Rightarrow> if atEOF then (length data, Some (dropCR data)) else (0, None))"

text \<open>
  \<open>(*bufio.Scanner).Scan()\<close>. With no error yet: a token when the buffer (at most
  \<open>MaxScanTokenSize\<close> bytes) holds a full line; \<open>ErrTooLong\<close> when the buffer is full
  and holds none; at the end of the file the error becomes \<open>io.EOF\<close> and the last,
  unterminated line (if not empty) is the final token. With an error set: the split
  function runs once more, at EOF, on what is held.
\<close>

definition Scan :: "error + string \<Rightarrow> bufio_Scanner \<Rightarrow> bool \<times> bufio_Scanner" where
  "Scan src s =
     (case s_err s of
        Some e \<Rightarrow>
          (case ScanLines (s_held s) True of
             (adv, Some tok) \<Rightarrow>
               (True, s\<lparr>s_pos := s_pos s + adv, s_held := drop adv (s_held s), s_token := tok\<rparr>)
           | (adv, None) \<Rightarrow> (False, s\<lparr>s_held := []\<rparr>))
      | None \<Rightarrow>
          (case src of
             Inl e \<Rightarrow> (False, s\<lparr>s_err := Some e\<rparr>)
           | Inr bytes \<Rightarrow>
               (let window = take MaxScanTokenSize (drop (s_pos s) bytes) in
                case ScanLines window False of
                  (adv, Some tok) \<Rightarrow> (True, s\<lparr>s_pos := s_pos s + adv, s_token := tok\<rparr>)
                | (adv, None) \<Rightarrow>
                    if MaxScanTokenSize \<le> length window
                    then (False, s\<lparr>s_err := Some ErrTooLong, s_held := window\<rparr>)
                    else (case ScanLines window True of
                            (adv', Some tok) \<Rightarrow>
                              (True, s\<lparr>s_pos := s_pos s + adv', s_err := Some EOF, s_token := tok\<rparr>)
                          | (adv', None) \<Rightarrow> (False, s\<lparr>s_err := Some EOF\<rparr>)))))"

definition Text :: "bufio_Scanner \<Rightarrow> string" where
  "Text s = s_token s"

text \<open>\<open>(*bufio.Scanner).Err()\<close>: the sticky error, \<open>nil\<close> when it is \<open>io.EOF\<close>.\<close>

definition Err_Scanner :: "bufio_Scanner \<Rightarrow> error option" where
  "Err_Scanner s = (case s_err s of None \<Rightarrow> None | Some e \<Rightarrow> if e = EOF then None else Some e)"

text \<open>\<open>strings.Split(s, sep)\<close> for a separator of one byte: never the empty list.\<close>

fun Split :: "string \<Rightarrow> char \<Rightarrow> string list" where
  "Split [] sep = [[]]"
| "Split (c # cs) sep =
     (if c = sep then [] # Split cs sep
      else (case Split cs sep of [] \<Rightarrow> [[c]] | x # xs \<Rightarrow> (c # x) # xs))"

section \<open>The line reader (reader.go)\<close>

text \<open>
  The repository holds the line reader twice: over a \<open>bufio.Reader\<close> and its
  \<open>ReadSlice\<close>, and over a \<open>bufio.Scanner\<close>. The second one carries the licence
  header of the harvester and calls the unexported helpers of sys.go; the harvester is
  modelled on it. The struct is the same but for the type of \<open>reader\<close>, a pointer that
  \<open>Close\<close> sets to \<open>nil\<close>. The field \<open>readOffset\<close> is a pointer to a counter the
  reader does not own (the harvester passes the address of \<open>meta.CurOffset\<close>): the
  counter is an argument and a result of \<open>Next\<close>.
\<close>

record 'r LineReader =
  closed :: int32
  originName :: string
  curFile :: File
  reader :: "'r option"

text \<open>The position \<open>NewLineReader\<close> seeks to (the function literal in the call of \<open>Seek\<close>).\<close>

definition seek_target :: "int64 \<Rightarrow> int64" where
  "seek_target offset = (if offset = 0 then offset else offset + 1)"

definition NewLineReader_ReadSlice :: "filesystem \<Rightarrow> string \<Rightarrow> int64 \<Rightarrow> error + bufio_Reader LineReader" where
  "NewLineReader_ReadSlice fs name offset =
     (case readOpen fs name of
        Inl err \<Rightarrow> Inl err
      | Inr f0 \<Rightarrow>
          (let f = fst (Seek (maxbytes fs) f0 (seek_target offset)) in
           Inr \<lparr>closed = 0, originName = name, curFile = f, reader = Some (NewReader f)\<rparr>))"

definition NewLineReader :: "filesystem \<Rightarrow> string \<Rightarrow> int64 \<Rightarrow> error + bufio_Scanner LineReader" where
  "NewLineReader fs name offset =
     (case readOpen fs name of
        Inl err \<Rightarrow> Inl err
      | Inr f0 \<Rightarrow>
          (let f = fst (Seek (maxbytes fs) f0 (seek_target offset)) in
           Inr \<lparr>closed = 0, originName = name, curFile = f, reader = Some (NewScanner f)\<rparr>))"

definition Close :: "'r LineReader \<Rightarrow> error option \<times> 'r LineReader" where
  "Close line =
     (let (f, err) = Close_File (curFile line) in
      (err, line\<lparr>closed := 1, reader := None, curFile := f\<rparr>))"

text \<open>
  What \<open>Next\<close> answers once the read has met the end of the file: the origin path is
  opened again, then the held handle is probed, then the two are compared.
\<close>

definition at_EOF :: "filesystem \<Rightarrow> 'r LineReader \<Rightarrow> error \<Rightarrow> error" where
  "at_EOF fs line err =
     (case readOpen fs (originName line) of
        Inl err' \<Rightarrow> if Is_ErrNotExist err' then ErrorRemoved else err'
      | Inr f \<Rightarrow>
          if isRemoved fs (curFile line) then ErrorRemoved
          else if \<not> isSameFile fs (curFile line) f then ErrorRename
          else err)"

definition Next_ReadSlice :: "filesystem \<Rightarrow> bufio_Reader LineReader \<Rightarrow> int64 \<Rightarrow> string result \<times> bufio_Reader LineReader \<times> int64" where
  "Next_ReadSlice fs line readOffset =
     (if closed line = 1 then (Err ErrorClosed, line, readOffset)
      else case reader line of
        None \<Rightarrow> (Panic, line, readOffset)
      | Some rd \<Rightarrow>
          (case ReadSlice (source_of fs (curFile line)) rd delimLabel of
             (msg, None, rd') \<Rightarrow>
               (Ok (Split msg delimLabel ! 0), line\<lparr>reader := Some rd'\<rparr>,
                readOffset + of_nat (length msg))
           | (msg, Some err, rd') \<Rightarrow>
               (Err (if Is_EOF err then at_EOF fs line err else err),
                line\<lparr>reader := Some rd'\<rparr>, readOffset)))"

definition Next :: "filesystem \<Rightarrow> bufio_Scanner LineReader \<Rightarrow> int64 \<Rightarrow> string result \<times> bufio_Scanner LineReader \<times> int64" where
  "Next fs line readOffset =
     (if closed line = 1 then (Err ErrorClosed, line, readOffset)
      else case reader line of
        None \<Rightarrow> (Panic, line, readOffset)
      | Some sc \<Rightarrow>
          (case Scan (source_of fs (curFile line)) sc of
             (True, sc') \<Rightarrow>
               (let msg = Text sc' in
                (Ok (Split msg delimLabel ! 0), line\<lparr>reader := Some sc'\<rparr>,
                 readOffset + of_nat (length msg)))
           | (False, sc') \<Rightarrow>
               (let err = (case Err_Scanner sc' of None \<Rightarrow> EOF | Some e \<Rightarrow> e) in
                (Err (if Is_EOF err then at_EOF fs line err else err),
                 line\<lparr>reader := Some sc'\<rparr>, readOffset))))"

text \<open>
  The loop of \<open>Test_ReaderLine\<close>: call \<open>Next\<close> until it fails, keeping the records.
  The fuel bounds the number of calls; \<open>None\<close> means it ran out.
\<close>

fun drain_ReadSlice :: "nat \<Rightarrow> filesystem \<Rightarrow> bufio_Reader LineReader \<Rightarrow> int64 \<Rightarrow> (string list \<times> string result \<times> bufio_Reader LineReader \<times> int64) option" where
  "drain_ReadSlice 0 fs line off = None"
| "drain_ReadSlice (Suc n) fs line off =
     (case Next_ReadSlice fs line off of
        (Ok msg, line', off') \<Rightarrow>
          (case drain_ReadSlice n fs line' off' of
             None \<Rightarrow> None
           | Some (msgs, r) \<Rightarrow> Some (msg # msgs, r))
      | (r, line', off') \<Rightarrow> Some ([], r, line', off'))"

fun drain :: "nat \<Rightarrow> filesystem \<Rightarrow> bufio_Scanner LineReader \<Rightarrow> int64 \<Rightarrow> (string list \<times> string result \<times> bufio_Scanner LineReader \<times> int64) option" where
  "drain 0 fs line off = None"
| "drain (Suc n) fs line off =
     (case Next fs line off of
        (Ok msg, line', off') \<Rightarrow>
          (case drain n fs line' off' of
             None \<Rightarrow> None
           | Some (msgs, r) \<Rightarrow> Some (msg # msgs, r))
      | (r, line', off') \<Rightarrow> Some ([], r, line', off'))"

section \<open>The checkpoint (metadata.go) and the harvester (harvester.go)\<close>

record Metadata =
  CurFile :: string
  CurFileINode :: string
  CurOffset :: int64
  PreFileINode :: string

text \<open>\<open>Metadata{}\<close>, the zero value.\<close>

definition Metadata_zero :: Metadata where
  "Metadata_zero = \<lparr>CurFile = [], CurFileINode = [], CurOffset = 0, PreFileINode = []\<rparr>"

text \<open>
  Package \<open>encoding/json\<close> is not part of the repository. Its encoder, its validity
  test and its decoder are parameters; what is modelled is the one check of
  \<open>json.Unmarshal\<close> that does not depend on the document: the target must be a non-nil
  pointer, or the call returns an \<open>*InvalidUnmarshalError\<close> and stores nothing. A target
  is the value the caller passes, either a struct by value or a pointer to it.
\<close>

record json_lib =
  Marshal :: "Metadata \<Rightarrow> string"
  Valid :: "string \<Rightarrow> bool"
  decode :: "string \<Rightarrow> Metadata \<Rightarrow> error + Metadata"

datatype 'a target = ByValue 'a | ByPointer 'a

text \<open>The error of \<open>json.Unmarshal(data, v)\<close> and the caller's struct after the call.\<close>

definition Unmarshal :: "json_lib \<Rightarrow> string \<Rightarrow> Metadata target \<Rightarrow> error option \<times> Metadata" where
  "Unmarshal js data v =
     (case v of
        ByValue m \<Rightarrow> (Some (if Valid js data then InvalidUnmarshalError else SyntaxError), m)
      | ByPointer m \<Rightarrow>
          if \<not> Valid js data then (Some SyntaxError, m)
          else (case decode js data m of Inl e \<Rightarrow> (Some e, m) | Inr m' \<Rightarrow> (None, m')))"

text \<open>
  The world of the harvester: the log files, what reading the checkpoint file at
  \<open>cfg.MetaPath\<close> answers, and what creating it would answer.
\<close>

record world =
  files :: filesystem
  metaFile :: "errno + string"
  createErr :: "errno option"

text \<open>
  The harvester's fields that carry state: the cell \<open>curReader\<close> (an \<open>atomic.Value\<close>,
  \<open>nil\<close> until the first \<open>Store\<close>), the checkpoint, the sinks (each one as the list of
  messages it has received), the pending files, and the errors handed to \<open>OnError\<close>.
\<close>

record harvester =
  curReader :: "bufio_Scanner LineReader option"
  meta :: Metadata
  sinks :: "string list list"
  waitDealFiles :: "FileInfo list"
  errlog :: "error list"

definition OnError :: "harvester \<Rightarrow> error \<Rightarrow> harvester" where
  "OnError beater err = beater\<lparr>errlog := errlog beater @ [err]\<rparr>"

definition RegisterSink :: "harvester \<Rightarrow> harvester" where
  "RegisterSink beater = beater\<lparr>sinks := sinks beater @ [[]]\<rparr>"

definition initReaderFromMetadata :: "filesystem \<Rightarrow> harvester \<Rightarrow> error option \<times> harvester" where
  "initReaderFromMetadata fs beater =
     (if CurFile (meta beater) \<noteq> [] then
        (case NewLineReader fs (CurFile (meta beater)) (CurOffset (meta beater)) of
           Inl err \<Rightarrow> (Some err, beater)
         | Inr rd \<Rightarrow> (None, beater\<lparr>curReader := Some rd\<rparr>))
      else (None, beater))"

text \<open>The part of \<open>Init\<close> after the checkpoint file has been dealt with.\<close>

definition Init_reader :: "world \<Rightarrow> harvester \<Rightarrow> error option \<times> world \<times> harvester" where
  "Init_reader w beater =
     (case initReaderFromMetadata (files w) beater of
        (Some err, beater') \<Rightarrow>
          if \<not> Is_ErrNotExist err then (Some err, w, beater')
          else (case initReaderFromMetadata (files w) (beater'\<lparr>meta := Metadata_zero\<rparr>) of
                  (err', beater'') \<Rightarrow> (err', w, beater''))
      | (None, beater') \<Rightarrow> (None, w, beater'))"

definition Init :: "json_lib \<Rightarrow> world \<Rightarrow> harvester \<Rightarrow> error option \<times> world \<times> harvester" where
  "Init js w beater =
     (case metaFile w of
        Inl e \<Rightarrow>
          if \<not> Is_ErrNotExist (PathError e) then (Some (PathError e), w, beater)
          else (case createErr w of
                  Some e' \<Rightarrow> (Some (PathError e'), w, beater)
                | None \<Rightarrow> Init_reader (w\<lparr>metaFile := Inr []\<rparr>) beater)
      | Inr data \<Rightarrow>
          if \<not> Valid js data then (None, w, beater)
          else (case Unmarshal js data (ByValue (meta beater)) of
                  (Some err, m) \<Rightarrow> (Some err, w, beater)
                | (None, m) \<Rightarrow> Init_reader w beater))"

definition NewHarvester :: "json_lib \<Rightarrow> world \<Rightarrow> (error + harvester) \<times> world" where
  "NewHarvester js w =
     (let beater = \<lparr>curReader = None, meta = Metadata_zero, sinks = [], waitDealFiles = [],
                     errlog = []\<rparr> in
      case Init js w beater of
        (Some err, w', beater') \<Rightarrow> (Inl err, w')
      | (None, w', beater') \<Rightarrow> (Inr beater', w'))"

text \<open>
  \<open>beater.curReader.Load().(Reader).Close()\<close>: the type assertion has no \<open>ok\<close> result,
  so it panics on the \<open>nil\<close> an empty cell loads.
\<close>

definition Close_harvester :: "harvester \<Rightarrow> unit result \<times> harvester" where
  "Close_harvester beater =
     (case curReader beater of
        None \<Rightarrow> (Panic, beater)
      | Some rd \<Rightarrow>
          (case Close rd of
             (None, rd') \<Rightarrow> (Ok (), beater\<lparr>curReader := Some rd'\<rparr>)
           | (Some err, rd') \<Rightarrow> (Err err, beater\<lparr>curReader := Some rd'\<rparr>)))"

text \<open>
  \<open>initReaderFromWait\<close>: with an empty pending list the call waits on \<open>haveFileCond\<close>;
  otherwise the last pending entry becomes the current file.
\<close>

definition initReaderFromWait :: "filesystem \<Rightarrow> harvester \<Rightarrow> unit result \<times> harvester" where
  "initReaderFromWait fs beater =
     (if waitDealFiles beater = [] then (Blocked, beater)
      else
        (let waitDeal = last (waitDealFiles beater);
             beater1 = beater\<lparr>meta := (meta beater)
                         \<lparr>CurFile := Name waitDeal, CurOffset := 0,
                          CurFileINode := String_StateOS (GetOSState waitDeal)\<rparr>\<rparr>
         in case NewLineReader fs (Name waitDeal) (CurOffset (meta beater1)) of
              Inl err \<Rightarrow> (Err err, beater1)
            | Inr rd \<Rightarrow>
                (let beater2 = (case curReader beater1 of
                                  None \<Rightarrow> beater1
                                | Some old \<Rightarrow> beater1\<lparr>curReader := Some (snd (Close old))\<rparr>)
                 in (Ok (), beater2\<lparr>curReader := Some rd\<rparr>))))"

text \<open>The index of the first element that satisfies \<open>p\<close> (the two \<open>for ... break\<close> loops).\<close>

fun index_where :: "('a \<Rightarrow> bool) \<Rightarrow> 'a list \<Rightarrow> nat option" where
  "index_where p [] = None"
| "index_where p (x # xs) = (if p x then Some 0 else map_option Suc (index_where p xs))"

definition switchNextFile :: "filesystem \<Rightarrow> harvester \<Rightarrow> unit result \<times> harvester" where
  "switchNextFile fs beater =
     (let beater1 = (case curReader beater of
                       None \<Rightarrow> beater
                     | Some old \<Rightarrow> beater\<lparr>curReader := Some (snd (Close old))\<rparr>);
          curStatStr = CurFileINode (meta beater1);
          beater2 =
            (case index_where (\<lambda>fi. curStatStr = String_StateOS (GetOSState fi))
                    (waitDealFiles beater1) of
               None \<Rightarrow> beater1
             | Some pos \<Rightarrow>
                 beater1\<lparr>waitDealFiles :=
                   take pos (waitDealFiles beater1) @ drop (pos + 1) (waitDealFiles beater1)\<rparr>)
      in initReaderFromWait fs beater2)"

text \<open>
  \<open>ignoreAlreadDeal\<close>. \<open>sort.Slice\<close> is a parameter: any function that returns its input
  rearranged so that no element is \<open>less\<close> than one before it. \<open>After\<close> is the \<open>less\<close>
  function the source passes.
\<close>

definition After :: "FileInfo \<Rightarrow> FileInfo \<Rightarrow> bool" where
  "After a b = (ModTime b < ModTime a)"

definition ignoreAlreadDeal ::
  "((FileInfo \<Rightarrow> FileInfo \<Rightarrow> bool) \<Rightarrow> FileInfo list \<Rightarrow> FileInfo list) \<Rightarrow> harvester \<Rightarrow> FileInfo list \<Rightarrow> FileInfo list" where
  "ignoreAlreadDeal sort_Slice beater source =
     (let sorted_source = sort_Slice After source;
          pos = (case index_where
                        (\<lambda>item. CurFileINode (meta beater) = String_StateOS (GetOSState item))
                        sorted_source of
                   None \<Rightarrow> length sorted_source
                 | Some i \<Rightarrow> i)
      in take pos sorted_source)"

text \<open>
  The insertion sort \<open>sort.Slice\<close> runs on short slices: each element moves left while it
  is \<open>less\<close> than its left neighbour. The prefix sorted so far is kept reversed.
\<close>

fun insert_left :: "('a \<Rightarrow> 'a \<Rightarrow> bool) \<Rightarrow> 'a \<Rightarrow> 'a list \<Rightarrow> 'a list" where
  "insert_left lt x [] = [x]"
| "insert_left lt x (y # ys) = (if lt x y then y # insert_left lt x ys else x # y # ys)"

definition insertionSort :: "('a \<Rightarrow> 'a \<Rightarrow> bool) \<Rightarrow> 'a list \<Rightarrow> 'a list" where
  "insertionSort lt xs = rev (foldl (\<lambda>acc x. insert_left lt x acc) [] xs)"

text \<open>
  \<open>reportAndSyncMetadata\<close> writes the encoded checkpoint over the checkpoint file; the
  source drops the error of the write, and the write is taken to succeed.
\<close>

definition reportAndSyncMetadata :: "json_lib \<Rightarrow> world \<Rightarrow> harvester \<Rightarrow> world" where
  "reportAndSyncMetadata js w beater = w\<lparr>metaFile := Inr (Marshal js (meta beater))\<rparr>"

text \<open>
  \<open>innerRun\<close>, one loop turn per unit of fuel (\<open>None\<close>: the fuel ran out). The reader
  writes through its pointer into \<open>meta.CurOffset\<close>.
\<close>

fun innerRun :: "nat \<Rightarrow> json_lib \<Rightarrow> world \<Rightarrow> harvester \<Rightarrow> (unit result \<times> world \<times> harvester) option" where
  "innerRun 0 js w beater = None"
| "innerRun (Suc n) js w beater =
     (case curReader beater of
        None \<Rightarrow> Some (Panic, w, beater)
      | Some rd \<Rightarrow>
          (case Next (files w) rd (CurOffset (meta beater)) of
             (res, rd', off') \<Rightarrow>
               (let beater1 = beater\<lparr>curReader := Some rd',
                                      meta := (meta beater)\<lparr>CurOffset := off'\<rparr>\<rparr>
                in case res of
                     Ok msg \<Rightarrow>
                       (let beater2 = beater1\<lparr>sinks := map (\<lambda>sink. sink @ [msg]) (sinks beater1)\<rparr>
                        in innerRun n js (reportAndSyncMetadata js w beater2) beater2)
                   | Err err \<Rightarrow>
                       if err = ErrorRemoved \<or> err = ErrorRename then
                         (case switchNextFile (files w) beater1 of
                            (Blocked, beater2) \<Rightarrow> Some (Blocked, w, beater2)
                          | (Panic, beater2) \<Rightarrow> Some (Panic, w, beater2)
                          | (r, beater2) \<Rightarrow> innerRun n js w beater2)
                       else if err = EOF then Some (Ok (), w, beater1)
                       else Some (Ok (), w, OnError beater1 err)
                   | Panic \<Rightarrow> Some (Panic, w, beater1)
                   | Blocked \<Rightarrow> Some (Blocked, w, beater1))))"

section \<open>Concrete inputs\<close>

text \<open>
  A file system with one log file, \<open>a.log\<close> (inode 7 on device 1, one link), holding
  the given bytes; and the readers \<open>NewLineReader\<close> returns on it at handle offset \<open>n\<close>.
  The largest file offset of the concrete file systems is that of ext4, \<open>2^44 - 4096\<close>.
\<close>

definition one_file :: "string \<Rightarrow> filesystem" where
  "one_file bytes =
     \<lparr>resolve = (\<lambda>p. if p = ''a.log'' then Inr 0 else Inl ENOENT),
      inodes = (\<lambda>i. \<lparr>istat = \<lparr>Ino = 7, Dev = 1, Nlink = 1\<rparr>, ibytes = bytes\<rparr>),
      maxbytes = 17592186040320\<rparr>"

definition a_log :: "nat \<Rightarrow> File" where
  "a_log n = \<lparr>fname = ''a.log'', fnode = 0, fflag = O_RDONLY, foffset = n, fclosed = False\<rparr>"

definition opened_at :: "nat \<Rightarrow> bufio_Scanner LineReader" where
  "opened_at n =
     \<lparr>closed = 0, originName = ''a.log'', curFile = a_log n,
      reader = Some \<lparr>s_pos = n, s_err = None, s_held = [], s_token = []\<rparr>\<rparr>"

definition opened_at_ReadSlice :: "nat \<Rightarrow> bufio_Reader LineReader" where
  "opened_at_ReadSlice n =
     \<lparr>closed = 0, originName = ''a.log'', curFile = a_log n, reader = Some \<lparr>r_pos = n\<rparr>\<rparr>"

text \<open>
  The file of scenario S1 (the lines \<open>Test_ReaderLine\<close> expects, each ended by a line
  feed).
\<close>

definition S1_lines :: "string list" where
  "S1_lines =
     [''test_line_log=1'', ''test_line_log=2'', ''test_line_log=3'', ''test_line_log=4'',
      ''test_line_log=5'', ''test_line_log=6'', ''test_line_log=7'', ''test_line_log=8'',
      ''test_line_log=9'', ''test_line_log=10'']"

definition S1_bytes :: string where
  "S1_bytes = concat (map (\<lambda>l. l @ [delimLabel]) S1_lines)"

text \<open>
  After a rotation: the held file object (inode 7, read to its end) has lost the
  name \<open>a.log\<close> to a new file (inode 8).
\<close>

definition rotated :: filesystem where
  "rotated =
     \<lparr>resolve = (\<lambda>p. if p = ''a.log'' then Inr 1 else Inl ENOENT),
      inodes = (\<lambda>i. if i = 0 then \<lparr>istat = \<lparr>Ino = 7, Dev = 1, Nlink = 1\<rparr>, ibytes = []\<rparr>
                     else \<lparr>istat = \<lparr>Ino = 8, Dev = 1, Nlink = 1\<rparr>,
                           ibytes = ''new_line_1'' @ [CHR 0x0A]\<rparr>),
      maxbytes = 17592186040320\<rparr>"

text \<open>
  The held file object has been unlinked (\<open>Nlink = 0\<close>), and opening the path is
  refused with \<open>EACCES\<close>.
\<close>

definition denied :: filesystem where
  "denied =
     \<lparr>resolve = (\<lambda>p. Inl EACCES),
      inodes = (\<lambda>i. \<lparr>istat = \<lparr>Ino = 7, Dev = 1, Nlink = 0\<rparr>, ibytes = []\<rparr>),
      maxbytes = 17592186040320\<rparr>"

text \<open>
  Two log files in the watched directory, the older \<open>a.log\<close> (inode 7) and the newer
  \<open>b.log\<close> (inode 8), their directory entries, and a harvester that has read the first
  line of \<open>a.log\<close> and holds both entries as pending.
\<close>

definition two_files :: filesystem where
  "two_files =
     \<lparr>resolve = (\<lambda>p. if p = ''a.log'' then Inr 0 else if p = ''b.log'' then Inr 1
                      else Inl ENOENT),
      inodes = (\<lambda>i. if i = 0
                     then \<lparr>istat = \<lparr>Ino = 7, Dev = 1, Nlink = 1\<rparr>,
                           ibytes = ''test_line_log=1'' @ [CHR 0x0A]\<rparr>
                     else \<lparr>istat = \<lparr>Ino = 8, Dev = 1, Nlink = 1\<rparr>,
                           ibytes = ''new_line_1'' @ [CHR 0x0A]\<rparr>),
      maxbytes = 17592186040320\<rparr>"

definition a_info :: FileInfo where
  "a_info = \<lparr>Name = ''a.log'', ModTime = 100, Sys = \<lparr>Ino = 7, Dev = 1, Nlink = 1\<rparr>\<rparr>"

definition b_info :: FileInfo where
  "b_info = \<lparr>Name = ''b.log'', ModTime = 200, Sys = \<lparr>Ino = 8, Dev = 1, Nlink = 1\<rparr>\<rparr>"

definition on_a_log :: harvester where
  "on_a_log =
     \<lparr>curReader =
        Some ((opened_at 0)\<lparr>reader :=
                Some \<lparr>s_pos = 16, s_err = None, s_held = [], s_token = ''test_line_log=1''\<rparr>\<rparr>),
      meta = \<lparr>CurFile = ''a.log'', CurFileINode = ''7-1'', CurOffset = 15, PreFileINode = []\<rparr>,
      sinks = [], waitDealFiles = [b_info, a_info], errlog = []\<rparr>"

text \<open>
  The harvester \<open>NewHarvester\<close> builds before it calls \<open>Init\<close>, and a world in which no
  checkpoint file exists yet and one can be created.
\<close>

definition fresh :: harvester where
  "fresh = \<lparr>curReader = None, meta = Metadata_zero, sinks = [], waitDealFiles = [], errlog = []\<rparr>"

definition first_run :: world where
  "first_run = \<lparr>files = two_files, metaFile = Inl ENOENT, createErr = None\<rparr>"

text \<open>A stand-in for the JSON library that accepts no document.\<close>

definition no_json :: json_lib where
  "no_json = \<lparr>Marshal = (\<lambda>m. []), Valid = (\<lambda>data. False), decode = (\<lambda>data m. Inl SyntaxError)\<rparr>"

section \<open>States that can arise\<close>

text \<open>
  The readers a program can hold: one that \<open>NewLineReader\<close> returned, after any number
  of calls of \<open>Next\<close> and \<open>Close\<close>, on whatever the file system was at each call.
\<close>

inductive reachable_reader :: "bufio_Scanner LineReader \<Rightarrow> bool" where
  opened: "NewLineReader fs name offset = Inr line \<Longrightarrow> reachable_reader line"
| read: "reachable_reader line \<Longrightarrow> reachable_reader (fst (snd (Next fs line off)))"
| shut: "reachable_reader line \<Longrightarrow> reachable_reader (snd (Close line))"

text \<open>
  The harvesters a program can hold: one that \<open>NewHarvester\<close> returned, after any
  number of its operations; the refresher may have put any list of entries into
  \<open>waitDealFiles\<close>.
\<close>

inductive reachable_harvester :: "harvester \<Rightarrow> bool" where
  built: "NewHarvester js w = (Inr beater, w') \<Longrightarrow> reachable_harvester beater"
| registered: "reachable_harvester beater \<Longrightarrow> reachable_harvester (RegisterSink beater)"
| refreshed: "reachable_harvester beater \<Longrightarrow> reachable_harvester (beater\<lparr>waitDealFiles := fl\<rparr>)"
| initialised: "reachable_harvester beater \<Longrightarrow> reachable_harvester (snd (snd (Init js w beater)))"
| adopted: "reachable_harvester beater \<Longrightarrow> reachable_harvester (snd (initReaderFromWait fs beater))"
| ran: "reachable_harvester beater \<Longrightarrow> innerRun n js w beater = Some (r, w', beater') \<Longrightarrow>
          reachable_harvester beater'"
| closing: "reachable_harvester beater \<Longrightarrow> reachable_harvester (snd (Close_harvester beater))"

text \<open>What these states have in common: no scanner holds \<open>ErrorEmpty\<close>, no log entry is it.\<close>

definition holds_no_ErrorEmpty :: "bufio_Scanner LineReader \<Rightarrow> bool" where
  "holds_no_ErrorEmpty line =
     (case reader line of None \<Rightarrow> True | Some sc \<Rightarrow> s_err sc \<noteq> Some ErrorEmpty)"

definition harvester_inv :: "harvester \<Rightarrow> bool" where
  "harvester_inv beater =
     ((case curReader beater of None \<Rightarrow> True | Some rd \<Rightarrow> holds_no_ErrorEmpty rd)
      \<and> ErrorEmpty \<notin> set (errlog beater))"

section \<open>Facts about the probe and the buffered readers\<close>

text \<open>The definitions a concrete run of the reader unfolds.\<close>

lemmas run_defs =
  Next_def Next_ReadSlice_def one_file_def opened_at_def opened_at_ReadSlice_def a_log_def
  source_of_def Scan_def ScanLines_def ReadSlice_def IndexByte_def dropCR_def Text_def
  Err_Scanner_def delimLabel_def MaxScanTokenSize_def defaultBufSize_def Let_def at_EOF_def
  readOpen_def OpenFile_def isRemoved_def isSameFile_def SameFile_def Stat_def Is_EOF_def
  Is_ErrNotExist_def O_RDONLY_def

lemma AppendUint10_small: "n < 10 \<Longrightarrow> AppendUint10 n = [''0123456789'' ! n]"
  by (simp add: AppendUint10.simps)

lemma sint_plus1:
  assumes "sint (x::64 word) < 2 ^ 63 - 1"
  shows "sint (x + 1) = sint x + 1"
proof -
  have "- (2 ^ 63) \<le> sint x"
    using sint_ge [of x] by simp
  then have "signed_take_bit 63 (sint x + 1) = sint x + 1"
    using assms by (intro signed_take_bit_int_eq_self) auto
  then show ?thesis
    by (simp add: sint_word_add)
qed


text \<open>
  Where a handle stands after a seek: at the target when the seek is accepted, where
  it stood when the seek is refused.
\<close>

lemma Seek_foffset:
  "foffset (fst (Seek limit f off)) =
     (if \<not> fclosed f \<and> 0 \<le> sint off \<and> nat (sint off) \<le> limit then nat (sint off)
      else foffset f)"
  by (simp add: Seek_def not_less)


lemma Split_first: "Split s sep \<noteq> [] \<and> Split s sep ! 0 = takeWhile (\<lambda>c. c \<noteq> sep) s"
  by (induction s) (auto split: list.splits)

lemma Split_no_sep: "sep \<notin> set s \<Longrightarrow> Split s sep ! 0 = s"
  by (auto simp: Split_first)

lemma takeWhile_line: "sep \<notin> set s \<Longrightarrow> takeWhile (\<lambda>c. c \<noteq> sep) (s @ [sep]) = s"
  by (induction s) auto

lemma Split_line: "sep \<notin> set s \<Longrightarrow> Split (s @ [sep]) sep ! 0 = s"
  by (simp add: Split_first takeWhile_line)

lemma take_upto_first:
  "d \<in> set xs \<Longrightarrow>
     take (Suc (length (takeWhile (\<lambda>x. x \<noteq> d) xs))) xs = takeWhile (\<lambda>x. x \<noteq> d) xs @ [d]"
  by (induction xs) auto

lemma take_before_first:
  "take (length (takeWhile (\<lambda>x. x \<noteq> d) xs)) xs = takeWhile (\<lambda>x. x \<noteq> d) xs"
  by (induction xs) auto

lemma IndexByte_Some:
  "IndexByte s c = Some i \<Longrightarrow> c \<in> set s \<and> i = length (takeWhile (\<lambda>x. x \<noteq> c) s)"
  by (auto simp: IndexByte_def split: if_splits)

lemma IndexByte_None: "IndexByte s c = None \<Longrightarrow> c \<notin> set s"
  by (auto simp: IndexByte_def split: if_splits)

lemma set_dropCR: "set (dropCR data) \<subseteq> set data"
  by (auto simp: dropCR_def dest: in_set_butlastD)

text \<open>A token of \<open>ScanLines\<close> never holds the line feed.\<close>

lemma ScanLines_token:
  assumes "ScanLines data atEOF = (adv, Some tok)"
  shows "CHR 0x0A \<notin> set tok"
proof (cases "IndexByte data (CHR 0x0A)")
  case None
  then have "CHR 0x0A \<notin> set data"
    by (rule IndexByte_None)
  moreover from assms None have "tok = dropCR data"
    by (auto simp: ScanLines_def split: if_splits)
  ultimately show ?thesis
    using set_dropCR by blast
next
  case (Some i)
  then have i: "i = length (takeWhile (\<lambda>x. x \<noteq> CHR 0x0A) data)"
    using IndexByte_Some by blast
  from assms Some have "tok = dropCR (take i data)"
    by (auto simp: ScanLines_def split: if_splits)
  then have "tok = dropCR (takeWhile (\<lambda>x. x \<noteq> CHR 0x0A) data)"
    using i by (simp add: take_before_first)
  moreover have "CHR 0x0A \<notin> set (takeWhile (\<lambda>x. x \<noteq> CHR 0x0A) data)"
    by (auto dest: set_takeWhileD)
  ultimately show ?thesis
    using set_dropCR by blast
qed

lemma Scan_token:
  assumes "Scan src sc = (True, sc')"
  shows "CHR 0x0A \<notin> set (s_token sc')"
proof (cases "s_err sc")
  case (Some e)
  with assms obtain adv tok where
    "ScanLines (s_held sc) True = (adv, Some tok)" "s_token sc' = tok"
    by (auto simp: Scan_def split: prod.splits option.splits)
  then show ?thesis
    using ScanLines_token by blast
next
  case None
  show ?thesis
  proof (cases src)
    case (Inl e)
    with assms None show ?thesis
      by (simp add: Scan_def)
  next
    case (Inr bytes)
    define window where "window = take MaxScanTokenSize (drop (s_pos sc) bytes)"
    from assms None Inr obtain adv tok b where
      "ScanLines window b = (adv, Some tok)" "s_token sc' = tok"
      unfolding Scan_def window_def Let_def
      by (auto split: prod.splits option.splits if_splits)
    then show ?thesis
      using ScanLines_token by blast
  qed
qed

text \<open>A line of \<open>ReadSlice\<close> is a record without the delimiter, followed by the delimiter.\<close>

lemma ReadSlice_line:
  assumes "ReadSlice src rd d = (msg, None, rd')"
  shows "\<exists>rec. msg = rec @ [d] \<and> d \<notin> set rec"
proof (cases src)
  case (Inl e)
  with assms show ?thesis
    by (simp add: ReadSlice_def)
next
  case (Inr bytes)
  define window where "window = take defaultBufSize (drop (r_pos rd) bytes)"
  from assms Inr obtain i where
    i: "IndexByte window d = Some i" and m: "msg = take (i + 1) window"
    unfolding ReadSlice_def window_def Let_def by (auto split: option.splits)
  from i have "d \<in> set window" "i = length (takeWhile (\<lambda>x. x \<noteq> d) window)"
    using IndexByte_Some by blast+
  with m have "msg = takeWhile (\<lambda>x. x \<noteq> d) window @ [d]"
    by (simp add: take_upto_first)
  moreover have "d \<notin> set (takeWhile (\<lambda>x. x \<noteq> d) window)"
    by (auto dest: set_takeWhileD)
  ultimately show ?thesis
    by blast
qed

section \<open>The line reader: construction\<close>

lemma NewLineReader_Inr:
  assumes "NewLineReader fs name offset = Inr line"
  shows "\<exists>f0. OpenFile fs name O_RDONLY 0 = Inr f0
           \<and> curFile line =
               fst (Seek (maxbytes fs) f0 (if offset = 0 then offset else offset + 1))
           \<and> reader line = Some (NewScanner (curFile line)) \<and> closed line = 0"
proof (cases "OpenFile fs name O_RDONLY 0")
  case (Inl e)
  with assms show ?thesis
    by (simp add: NewLineReader_def readOpen_def)
next
  case (Inr f0)
  with assms show ?thesis
    by (auto simp: NewLineReader_def readOpen_def seek_target_def Let_def)
qed






text \<open>
  A target the file system refuses leaves the handle at the start of the file, the
  error of \<open>Seek\<close> being dropped: beyond the largest file offset, and at the largest
  \<open>int64\<close>, where \<open>offset + 1\<close> wraps to a negative target.
\<close>

lemma NewLineReader_beyond_limit:
  "NewLineReader (one_file bytes) ''a.log'' 17592186040320 = Inr (opened_at 0)"
  by (simp add: NewLineReader_def readOpen_def OpenFile_def one_file_def Seek_def seek_target_def
      NewScanner_def opened_at_def a_log_def)

lemma NewLineReader_MaxInt64:
  "NewLineReader (one_file bytes) ''a.log'' 9223372036854775807 = Inr (opened_at 0)"
  by (simp add: NewLineReader_def readOpen_def OpenFile_def one_file_def Seek_def seek_target_def
      NewScanner_def opened_at_def a_log_def)



section \<open>The line reader: closing\<close>

lemma Close_Close: "snd (Close (snd (Close line))) = snd (Close line)"
  by (simp add: Close_def Close_File_def split: prod.splits)

lemma Close_again: "fst (Close (snd (Close line))) = Some ErrClosed"
  by (simp add: Close_def Close_File_def split: prod.splits)

lemma closed_Close: "closed (snd (Close line)) = 1"
  by (simp add: Close_def split: prod.splits)

lemma Next_closed: "closed line = 1 \<Longrightarrow> Next fs line off = (Err ErrorClosed, line, off)"
  by (simp add: Next_def)

lemma Next_ReadSlice_closed:
  "closed line = 1 \<Longrightarrow> Next_ReadSlice fs line off = (Err ErrorClosed, line, off)"
  by (simp add: Next_ReadSlice_def)

lemma Close_opened: "fst (Close (opened_at n)) = None"
  by (simp add: Close_def Close_File_def opened_at_def a_log_def)

text \<open>
  C8, as stated, fails: the first \<open>Close\<close> of a reader just opened returns \<open>nil\<close>, the
  second returns the error of closing a closed handle.
\<close>

theorem Close_twice_counterexample:
  "NewLineReader (one_file []) ''a.log'' 0 = Inr (opened_at 0)
   \<and> fst (Close (opened_at 0)) = None
   \<and> fst (Close (snd (Close (opened_at 0)))) = Some ErrClosed"
proof -
  have "NewLineReader (one_file []) ''a.log'' 0 = Inr (opened_at 0)"
    by (simp add: NewLineReader_def readOpen_def OpenFile_def one_file_def Seek_def
        seek_target_def NewScanner_def opened_at_def a_log_def)
  then show ?thesis
    by (simp only: Close_opened Close_again simp_thms)
qed

text \<open>
  C8, amended. \<open>Close\<close> is idempotent on the reader: a second \<open>Close\<close> leaves it as the
  first did (flag set, buffered reader released, handle closed); only its result
  differs, the second call returning the handle's already-closed error. After a
  \<open>Close\<close>, \<open>Next\<close> returns \<open>ErrorClosed\<close> and changes neither the reader nor the
  offset, so every later \<open>Next\<close> does the same. This holds for both readers.
\<close>

theorem Close_idempotent_Next_ErrorClosed:
  "snd (Close (snd (Close line))) = snd (Close line)
   \<and> fst (Close (snd (Close line))) = Some ErrClosed
   \<and> Next fs (snd (Close line)) off = (Err ErrorClosed, snd (Close line), off)
   \<and> snd (Close (snd (Close line0))) = snd (Close line0)
   \<and> fst (Close (snd (Close line0))) = Some ErrClosed
   \<and> Next_ReadSlice fs (snd (Close line0)) off = (Err ErrorClosed, snd (Close line0), off)"
  by (simp add: Close_Close Close_again Next_closed Next_ReadSlice_closed closed_Close)

section \<open>The line reader: the offset\<close>

lemma Next_Ok:
  assumes "Next fs line off = (Ok msg, line', off')"
  shows "\<exists>sc sc'. reader line = Some sc \<and> Scan (source_of fs (curFile line)) sc = (True, sc')
            \<and> msg = Split (s_token sc') delimLabel ! 0
            \<and> off' = off + of_nat (length (s_token sc'))
            \<and> line' = line\<lparr>reader := Some sc'\<rparr>"
proof -
  from assms have c: "closed line \<noteq> 1"
    by (auto simp: Next_def)
  with assms obtain sc where sc: "reader line = Some sc"
    by (cases "reader line") (auto simp: Next_def)
  obtain b sc' where s: "Scan (source_of fs (curFile line)) sc = (b, sc')"
    by force
  with assms c sc have "b"
    by (cases b) (auto simp: Next_def Let_def)
  with assms c sc s show ?thesis
    by (auto simp: Next_def Let_def Text_def)
qed

text \<open>
  A successful \<open>Next\<close> of the scanner-based reader advances the offset by the length of
  the record it returns, and by no more: the line feed the scanner consumed is not
  counted (nor is a carriage return before it).
\<close>

lemma Next_advance:
  assumes "Next fs line off = (Ok msg, line', off')"
  shows "off' = off + of_nat (length msg)"
proof -
  from Next_Ok [OF assms] obtain sc sc' where
    s: "Scan (source_of fs (curFile line)) sc = (True, sc')"
    and m: "msg = Split (s_token sc') delimLabel ! 0"
    and o: "off' = off + of_nat (length (s_token sc'))"
    by blast
  from Scan_token [OF s] have "msg = s_token sc'"
    using m by (simp add: delimLabel_def Split_no_sep)
  with o show ?thesis
    by simp
qed

lemma Next_ReadSlice_Ok:
  assumes "Next_ReadSlice fs line off = (Ok rec, line', off')"
  shows "\<exists>rd msg rd'. reader line = Some rd
            \<and> ReadSlice (source_of fs (curFile line)) rd delimLabel = (msg, None, rd')
            \<and> rec = Split msg delimLabel ! 0 \<and> off' = off + of_nat (length msg)"
proof -
  from assms have c: "closed line \<noteq> 1"
    by (auto simp: Next_ReadSlice_def)
  with assms obtain rd where rd: "reader line = Some rd"
    by (cases "reader line") (auto simp: Next_ReadSlice_def)
  obtain msg e rd' where
    s: "ReadSlice (source_of fs (curFile line)) rd delimLabel = (msg, e, rd')"
    using prod_cases3 by blast
  with assms c rd have "e = None"
    by (cases e) (auto simp: Next_ReadSlice_def)
  with assms c rd s show ?thesis
    by (auto simp: Next_ReadSlice_def)
qed

text \<open>
  A successful \<open>Next\<close> of the \<open>ReadSlice\<close>-based reader advances the offset by the length
  of the record plus one, the delimiter.
\<close>

lemma Next_ReadSlice_advance:
  assumes "Next_ReadSlice fs line off = (Ok rec, line', off')"
  shows "off' = off + of_nat (length rec + 1)"
proof -
  from Next_ReadSlice_Ok [OF assms] obtain rd msg rd' where
    s: "ReadSlice (source_of fs (curFile line)) rd delimLabel = (msg, None, rd')"
    and m: "rec = Split msg delimLabel ! 0"
    and o: "off' = off + of_nat (length msg)"
    by blast
  from ReadSlice_line [OF s] obtain r where r: "msg = r @ [delimLabel]" "delimLabel \<notin> set r"
    by blast
  then have "rec = r"
    using m by (simp add: Split_line)
  with o r show ?thesis
    by simp
qed

text \<open>
  C1 at a failing input: the file holds \<open>ab\<close> and a line feed. The scanner-based
  reader, opened at offset 0, returns \<open>ab\<close> and has consumed three bytes of the file
  (its position is 3), yet the offset it leaves is 2.
\<close>

theorem Next_offset_misses_delimiter:
  "NewLineReader (one_file (''ab'' @ [CHR 0x0A])) ''a.log'' 0 = Inr (opened_at 0)
   \<and> Next (one_file (''ab'' @ [CHR 0x0A])) (opened_at 0) 0 =
       (Ok ''ab'',
        (opened_at 0)\<lparr>reader := Some \<lparr>s_pos = 3, s_err = None, s_held = [], s_token = ''ab''\<rparr>\<rparr>,
        2)"
  by (simp add: NewLineReader_def Seek_def seek_target_def NewScanner_def run_defs)

section \<open>The line reader: the end of the file\<close>

lemma at_EOF_order:
  "at_EOF fs line EOF =
     (case resolve fs (originName line) of
        Inl e \<Rightarrow> if e = ENOENT then ErrorRemoved else PathError e
      | Inr i \<Rightarrow>
          if fclosed (curFile line) \<or> Nlink (istat (inodes fs (fnode (curFile line)))) = 0
          then ErrorRemoved
          else if Dev (istat (inodes fs (fnode (curFile line)))) = Dev (istat (inodes fs i))
                  \<and> Ino (istat (inodes fs (fnode (curFile line)))) = Ino (istat (inodes fs i))
          then EOF else ErrorRename)"
proof (cases "resolve fs (originName line)")
  case (Inl e)
  then show ?thesis
    by (simp add: at_EOF_def readOpen_def OpenFile_def Is_ErrNotExist_def)
next
  case (Inr i)
  then show ?thesis
    by (simp add: at_EOF_def readOpen_def OpenFile_def isRemoved_def Stat_def isSameFile_def
        SameFile_def)
qed

lemma Next_at_EOF:
  assumes "closed line \<noteq> 1" "reader line = Some sc"
    "Scan (source_of fs (curFile line)) sc = (False, sc')" "Err_Scanner sc' = None"
  shows "Next fs line off = (Err (at_EOF fs line EOF), line\<lparr>reader := Some sc'\<rparr>, off)"
  using assms by (simp add: Next_def Is_EOF_def)

lemma Next_ReadSlice_at_EOF:
  assumes "closed line \<noteq> 1" "reader line = Some rd"
    "ReadSlice (source_of fs (curFile line)) rd delimLabel = (msg, Some EOF, rd')"
  shows "Next_ReadSlice fs line off =
           (Err (at_EOF fs line EOF), line\<lparr>reader := Some rd'\<rparr>, off)"
  using assms by (simp add: Next_ReadSlice_def Is_EOF_def)

text \<open>
  C3, as stated, fails: with the held file unlinked (link count 0) and the path
  refused with \<open>EACCES\<close>, the claim's second test answers \<open>ErrorRemoved\<close>, while \<open>Next\<close>
  returns the error of the open.
\<close>

theorem Next_EOF_open_error_counterexample:
  "Scan (source_of denied (curFile (opened_at 0)))
       \<lparr>s_pos = 0, s_err = None, s_held = [], s_token = []\<rparr>
     = (False, \<lparr>s_pos = 0, s_err = Some EOF, s_held = [], s_token = []\<rparr>)
   \<and> readOpen denied ''a.log'' = Inl (PathError EACCES)
   \<and> \<not> Is_ErrNotExist (PathError EACCES)
   \<and> Nlink (istat (inodes denied (fnode (curFile (opened_at 0))))) = 0
   \<and> fst (Next denied (opened_at 0) 0) = Err (PathError EACCES)
   \<and> fst (Next denied (opened_at 0) 0) \<noteq> Err ErrorRemoved"
  by (simp add: denied_def run_defs)

text \<open>
  C3, amended. When the read meets the end of the file (\<open>Scan\<close> returns false with no
  error of its own; \<open>ReadSlice\<close> returns \<open>io.EOF\<close>), \<open>Next\<close> answers in this order: the
  path cannot be opened because it does not exist: \<open>ErrorRemoved\<close>; it cannot be opened
  for another reason: that error, unchanged; the held handle cannot be probed or its
  link count is 0: \<open>ErrorRemoved\<close>; the path names a file with another device or inode
  than the held one: \<open>ErrorRename\<close>; otherwise \<open>io.EOF\<close>.
\<close>

theorem Next_EOF_classification:
  "(closed line \<noteq> 1 \<and> reader line = Some sc
      \<and> Scan (source_of fs (curFile line)) sc = (False, sc') \<and> Err_Scanner sc' = None \<longrightarrow>
    fst (Next fs line off) =
      Err (case resolve fs (originName line) of
             Inl e \<Rightarrow> if e = ENOENT then ErrorRemoved else PathError e
           | Inr i \<Rightarrow>
               if fclosed (curFile line) \<or> Nlink (istat (inodes fs (fnode (curFile line)))) = 0
               then ErrorRemoved
               else if Dev (istat (inodes fs (fnode (curFile line)))) = Dev (istat (inodes fs i))
                     \<and> Ino (istat (inodes fs (fnode (curFile line)))) = Ino (istat (inodes fs i))
               then EOF else ErrorRename))
  \<and> (closed line0 \<noteq> 1 \<and> reader line0 = Some rd
      \<and> ReadSlice (source_of fs (curFile line0)) rd delimLabel = (msg, Some EOF, rd') \<longrightarrow>
    fst (Next_ReadSlice fs line0 off) =
      Err (case resolve fs (originName line0) of
             Inl e \<Rightarrow> if e = ENOENT then ErrorRemoved else PathError e
           | Inr i \<Rightarrow>
               if fclosed (curFile line0) \<or> Nlink (istat (inodes fs (fnode (curFile line0)))) = 0
               then ErrorRemoved
               else if Dev (istat (inodes fs (fnode (curFile line0)))) = Dev (istat (inodes fs i))
                     \<and> Ino (istat (inodes fs (fnode (curFile line0)))) = Ino (istat (inodes fs i))
               then EOF else ErrorRename))"
proof (intro conjI impI)
  assume "closed line \<noteq> 1 \<and> reader line = Some sc
      \<and> Scan (source_of fs (curFile line)) sc = (False, sc') \<and> Err_Scanner sc' = None"
  then have "fst (Next fs line off) = Err (at_EOF fs line EOF)"
    by (simp add: Next_at_EOF)
  then show "fst (Next fs line off) =
      Err (case resolve fs (originName line) of
             Inl e \<Rightarrow> if e = ENOENT then ErrorRemoved else PathError e
           | Inr i \<Rightarrow>
               if fclosed (curFile line) \<or> Nlink (istat (inodes fs (fnode (curFile line)))) = 0
               then ErrorRemoved
               else if Dev (istat (inodes fs (fnode (curFile line)))) = Dev (istat (inodes fs i))
                     \<and> Ino (istat (inodes fs (fnode (curFile line)))) = Ino (istat (inodes fs i))
               then EOF else ErrorRename)"
    by (simp only: at_EOF_order)
next
  assume "closed line0 \<noteq> 1 \<and> reader line0 = Some rd
      \<and> ReadSlice (source_of fs (curFile line0)) rd delimLabel = (msg, Some EOF, rd')"
  then have "fst (Next_ReadSlice fs line0 off) = Err (at_EOF fs line0 EOF)"
    by (simp add: Next_ReadSlice_at_EOF)
  then show "fst (Next_ReadSlice fs line0 off) =
      Err (case resolve fs (originName line0) of
             Inl e \<Rightarrow> if e = ENOENT then ErrorRemoved else PathError e
           | Inr i \<Rightarrow>
               if fclosed (curFile line0) \<or> Nlink (istat (inodes fs (fnode (curFile line0)))) = 0
               then ErrorRemoved
               else if Dev (istat (inodes fs (fnode (curFile line0)))) = Dev (istat (inodes fs i))
                     \<and> Ino (istat (inodes fs (fnode (curFile line0)))) = Ino (istat (inodes fs i))
               then EOF else ErrorRename)"
    by (simp only: at_EOF_order)
qed

lemma Scan_rotated:
  "Scan (source_of rotated (curFile (opened_at 0)))
       \<lparr>s_pos = 0, s_err = None, s_held = [], s_token = []\<rparr>
     = (False, \<lparr>s_pos = 0, s_err = Some EOF, s_held = [], s_token = []\<rparr>)"
  by (simp add: rotated_def run_defs)

lemma ReadSlice_rotated:
  "ReadSlice (source_of rotated (curFile (opened_at_ReadSlice 0))) \<lparr>r_pos = 0\<rparr> delimLabel
     = ([], Some EOF, \<lparr>r_pos = 0\<rparr>)"
  by (simp add: rotated_def run_defs)

theorem Next_EOF_classification_witness:
  "fst (Next rotated (opened_at 0) 0) = Err ErrorRename
   \<and> fst (Next_ReadSlice rotated (opened_at_ReadSlice 0) 0) = Err ErrorRename"
  using Next_EOF_classification [of "opened_at 0"
      "\<lparr>s_pos = 0, s_err = None, s_held = [], s_token = []\<rparr>" rotated
      "\<lparr>s_pos = 0, s_err = Some EOF, s_held = [], s_token = []\<rparr>" 0
      "opened_at_ReadSlice 0" "\<lparr>r_pos = 0\<rparr>" "[]" "\<lparr>r_pos = 0\<rparr>"]
    Scan_rotated ReadSlice_rotated
  by (simp add: opened_at_def opened_at_ReadSlice_def a_log_def rotated_def Err_Scanner_def)

section \<open>The line reader: draining a file of whole lines\<close>

text \<open>
  One call on a file that holds a whole line at the reader's position, one call at
  the end of the file, and from these the loop: a file made of the lines \<open>ls\<close>, each
  ended by a line feed, is drained into those lines, and the call after the last line
  ends in the verdict on the end of the file. The scanner-based reader strips a
  carriage return before the line feed and adds the lengths of the records to the
  offset; the \<open>ReadSlice\<close>-based reader adds the lengths of the lines with their
  delimiters.
\<close>

lemma takeWhile_upto: "d \<notin> set l \<Longrightarrow> takeWhile (\<lambda>x. x \<noteq> d) (l @ d # xs) = l"
  by (induction l) auto

lemma window_shape:
  assumes "length l < n"
  shows "\<exists>xs. take n (drop (length pre) (pre @ l @ d # rest)) = l @ d # xs"
proof -
  from assms obtain m where m: "n - length l = Suc m"
    by (cases "n - length l") auto
  then have "take n (l @ d # rest) = l @ d # take m rest"
    by simp
  then show ?thesis
    by simp
qed

lemma IndexByte_line: "d \<notin> set l \<Longrightarrow> IndexByte (l @ d # xs) d = Some (length l)"
  by (simp add: IndexByte_def takeWhile_upto)

lemma ReadSlice_window:
  assumes "take defaultBufSize (drop (r_pos rd) bytes) = w"
  shows "ReadSlice (Inr bytes) rd d =
           (case IndexByte w d of
              Some i \<Rightarrow> (take (i + 1) w, None, rd\<lparr>r_pos := r_pos rd + (i + 1)\<rparr>)
            | None \<Rightarrow> (w, Some (if defaultBufSize \<le> length w then ErrBufferFull else EOF),
                       rd\<lparr>r_pos := r_pos rd + length w\<rparr>))"
  using assms by (simp add: ReadSlice_def Let_def)

lemma ReadSlice_hit:
  assumes p: "r_pos rd = length pre" and d: "d \<notin> set l" and n: "length l < defaultBufSize"
  shows "ReadSlice (Inr (pre @ l @ d # rest)) rd d
           = (l @ [d], None, rd\<lparr>r_pos := length pre + (length l + 1)\<rparr>)"
proof -
  from window_shape [OF n] obtain xs where
    "take defaultBufSize (drop (length pre) (pre @ l @ d # rest)) = l @ d # xs"
    by blast
  with p have w: "take defaultBufSize (drop (r_pos rd) (pre @ l @ d # rest)) = l @ d # xs"
    by simp
  show ?thesis
    by (simp add: ReadSlice_window [OF w] IndexByte_line [OF d] p)
qed

lemma ReadSlice_end:
  assumes "r_pos rd = length bytes"
  shows "ReadSlice (Inr bytes) rd d = ([], Some EOF, rd)"
proof -
  from assms have w: "take defaultBufSize (drop (r_pos rd) bytes) = []"
    by simp
  show ?thesis
    by (simp add: ReadSlice_window [OF w] IndexByte_def defaultBufSize_def)
qed

lemma ScanLines_hit:
  assumes "CHR 0x0A \<notin> set l"
  shows "ScanLines (l @ CHR 0x0A # xs) False = (length l + 1, Some (dropCR l))"
  by (simp add: ScanLines_def IndexByte_line [OF assms])

lemma ScanLines_empty: "ScanLines [] b = (0, None)"
  by (simp add: ScanLines_def IndexByte_def)

lemma Scan_window:
  assumes "s_err sc = None" "take MaxScanTokenSize (drop (s_pos sc) bytes) = w"
  shows "Scan (Inr bytes) sc =
           (case ScanLines w False of
              (adv, Some tok) \<Rightarrow> (True, sc\<lparr>s_pos := s_pos sc + adv, s_token := tok\<rparr>)
            | (adv, None) \<Rightarrow>
                if MaxScanTokenSize \<le> length w
                then (False, sc\<lparr>s_err := Some ErrTooLong, s_held := w\<rparr>)
                else (case ScanLines w True of
                        (adv', Some tok) \<Rightarrow>
                          (True, sc\<lparr>s_pos := s_pos sc + adv', s_err := Some EOF, s_token := tok\<rparr>)
                      | (adv', None) \<Rightarrow> (False, sc\<lparr>s_err := Some EOF\<rparr>)))"
  using assms by (simp add: Scan_def Let_def)

lemma Scan_hit:
  assumes e: "s_err sc = None" and p: "s_pos sc = length pre" and d: "CHR 0x0A \<notin> set l"
    and n: "length l < MaxScanTokenSize"
  shows "Scan (Inr (pre @ l @ CHR 0x0A # rest)) sc
           = (True, sc\<lparr>s_pos := length pre + (length l + 1), s_token := dropCR l\<rparr>)"
proof -
  from window_shape [OF n] obtain xs where
    "take MaxScanTokenSize (drop (length pre) (pre @ l @ CHR 0x0A # rest)) = l @ CHR 0x0A # xs"
    by blast
  with p have w: "take MaxScanTokenSize (drop (s_pos sc) (pre @ l @ CHR 0x0A # rest))
                    = l @ CHR 0x0A # xs"
    by simp
  show ?thesis
    by (simp add: Scan_window [OF e w] ScanLines_hit [OF d] p)
qed

lemma Scan_end:
  assumes e: "s_err sc = None" and p: "s_pos sc = length bytes"
  shows "Scan (Inr bytes) sc = (False, sc\<lparr>s_err := Some EOF\<rparr>)"
proof -
  from p have w: "take MaxScanTokenSize (drop (s_pos sc) bytes) = []"
    by simp
  show ?thesis
    by (simp add: Scan_window [OF e w] ScanLines_empty MaxScanTokenSize_def)
qed


lemma at_EOF_reader:
  "at_EOF fs ((line :: 'r LineReader)\<lparr>reader := (x :: 'r option)\<rparr>) e = at_EOF fs line e"
  by (simp add: at_EOF_def split: sum.splits)

lemma Next_hit:
  assumes c: "closed line \<noteq> 1" and r: "reader line = Some sc" and e: "s_err sc = None"
    and p: "s_pos sc = length pre"
    and s: "source_of fs (curFile line) = Inr (pre @ l @ CHR 0x0A # rest)"
    and d: "CHR 0x0A \<notin> set l" and n: "length l < MaxScanTokenSize"
  shows "Next fs line off =
           (Ok (dropCR l),
            line\<lparr>reader := Some (sc\<lparr>s_pos := length pre + (length l + 1), s_token := dropCR l\<rparr>)\<rparr>,
            off + of_nat (length (dropCR l)))"
proof -
  from d have "CHR 0x0A \<notin> set (dropCR l)"
    using set_dropCR by blast
  then have "Split (dropCR l) delimLabel ! 0 = dropCR l"
    by (simp add: delimLabel_def Split_no_sep)
  then show ?thesis
    using c r by (simp add: Next_def s Scan_hit [OF e p d n] Text_def Let_def)
qed

lemma Next_end:
  assumes c: "closed line \<noteq> 1" and r: "reader line = Some sc" and e: "s_err sc = None"
    and p: "s_pos sc = length bytes"
    and s: "source_of fs (curFile line) = Inr bytes"
  shows "Next fs line off =
           (Err (at_EOF fs line EOF), line\<lparr>reader := Some (sc\<lparr>s_err := Some EOF\<rparr>)\<rparr>, off)"
  using c r by (simp add: Next_def s Scan_end [OF e p] Err_Scanner_def Is_EOF_def)

lemma drain_lines:
  assumes "\<forall>l\<in>set ls. CHR 0x0A \<notin> set l \<and> length l < MaxScanTokenSize"
    and "closed line \<noteq> 1" and "reader line = Some sc" and "s_err sc = None"
    and "s_pos sc = length pre"
    and "source_of fs (curFile line) = Inr (pre @ concat (map (\<lambda>l. l @ [CHR 0x0A]) ls))"
  shows "\<exists>line'. drain (Suc (length ls)) fs line off =
           Some (map dropCR ls, Err (at_EOF fs line EOF), line',
                 off + of_nat (sum_list (map (\<lambda>l. length (dropCR l)) ls)))"
  using assms
proof (induction ls arbitrary: pre line sc off)
  case Nil
  then have "Next fs line off =
      (Err (at_EOF fs line EOF), line\<lparr>reader := Some (sc\<lparr>s_err := Some EOF\<rparr>)\<rparr>, off)"
    by (intro Next_end) auto
  then show ?case
    by simp
next
  case (Cons l ls)
  define rest where "rest = concat (map (\<lambda>l. l @ [CHR 0x0A]) ls)"
  define sc1 where "sc1 = sc\<lparr>s_pos := length pre + (length l + 1), s_token := dropCR l\<rparr>"
  define line1 where "line1 = line\<lparr>reader := Some sc1\<rparr>"
  from Cons.prems have src: "source_of fs (curFile line) = Inr (pre @ l @ CHR 0x0A # rest)"
    by (simp add: rest_def)
  from Cons.prems have l: "CHR 0x0A \<notin> set l" "length l < MaxScanTokenSize"
    by auto
  have step: "Next fs line off = (Ok (dropCR l), line1, off + of_nat (length (dropCR l)))"
    unfolding line1_def sc1_def
    using Cons.prems(2,3,4,5) src l by (rule Next_hit)
  have "\<exists>line'. drain (Suc (length ls)) fs line1 (off + of_nat (length (dropCR l))) =
           Some (map dropCR ls, Err (at_EOF fs line1 EOF), line',
                 off + of_nat (length (dropCR l))
                   + of_nat (sum_list (map (\<lambda>l. length (dropCR l)) ls)))"
  proof (rule Cons.IH [where pre = "pre @ l @ [CHR 0x0A]" and sc = sc1])
    show "\<forall>l\<in>set ls. CHR 0x0A \<notin> set l \<and> length l < MaxScanTokenSize"
      using Cons.prems(1) by simp
    show "closed line1 \<noteq> 1"
      using Cons.prems(2) by (simp add: line1_def)
    show "reader line1 = Some sc1"
      by (simp add: line1_def)
    show "s_err sc1 = None"
      using Cons.prems(4) by (simp add: sc1_def)
    show "s_pos sc1 = length (pre @ l @ [CHR 0x0A])"
      by (simp add: sc1_def)
    show "source_of fs (curFile line1) =
            Inr ((pre @ l @ [CHR 0x0A]) @ concat (map (\<lambda>l. l @ [CHR 0x0A]) ls))"
      using src by (simp add: line1_def source_of_def rest_def)
  qed
  then obtain line' where
    "drain (Suc (length ls)) fs line1 (off + of_nat (length (dropCR l))) =
       Some (map dropCR ls, Err (at_EOF fs line EOF), line',
             off + of_nat (length (dropCR l))
               + of_nat (sum_list (map (\<lambda>l. length (dropCR l)) ls)))"
    by (auto simp: line1_def at_EOF_reader)
  with step show ?case
    by (simp add: add.assoc)
qed


lemma Next_ReadSlice_hit:
  assumes c: "closed line \<noteq> 1" and r: "reader line = Some rd"
    and p: "r_pos rd = length pre"
    and s: "source_of fs (curFile line) = Inr (pre @ l @ delimLabel # rest)"
    and d: "delimLabel \<notin> set l" and n: "length l < defaultBufSize"
  shows "Next_ReadSlice fs line off =
           (Ok l, line\<lparr>reader := Some (rd\<lparr>r_pos := length pre + (length l + 1)\<rparr>)\<rparr>,
            off + of_nat (length l + 1))"
  using c r by (simp add: Next_ReadSlice_def s ReadSlice_hit [OF p d n] Split_line [OF d])

lemma Next_ReadSlice_end:
  assumes c: "closed line \<noteq> 1" and r: "reader line = Some rd"
    and p: "r_pos rd = length bytes"
    and s: "source_of fs (curFile line) = Inr bytes"
  shows "Next_ReadSlice fs line off =
           (Err (at_EOF fs line EOF), line\<lparr>reader := Some rd\<rparr>, off)"
  using c r by (simp add: Next_ReadSlice_def s ReadSlice_end [OF p] Is_EOF_def)

lemma drain_ReadSlice_lines:
  assumes "\<forall>l\<in>set ls. delimLabel \<notin> set l \<and> length l < defaultBufSize"
    and "closed line \<noteq> 1" and "reader line = Some rd" and "r_pos rd = length pre"
    and "source_of fs (curFile line) = Inr (pre @ concat (map (\<lambda>l. l @ [delimLabel]) ls))"
  shows "\<exists>line'. drain_ReadSlice (Suc (length ls)) fs line off =
           Some (ls, Err (at_EOF fs line EOF), line',
                 off + of_nat (sum_list (map (\<lambda>l. length l + 1) ls)))"
  using assms
proof (induction ls arbitrary: pre line rd off)
  case Nil
  then have "Next_ReadSlice fs line off =
      (Err (at_EOF fs line EOF), line\<lparr>reader := Some rd\<rparr>, off)"
    by (intro Next_ReadSlice_end) auto
  then show ?case
    by simp
next
  case (Cons l ls)
  define rest where "rest = concat (map (\<lambda>l. l @ [delimLabel]) ls)"
  define rd1 where "rd1 = rd\<lparr>r_pos := length pre + (length l + 1)\<rparr>"
  define line1 where "line1 = line\<lparr>reader := Some rd1\<rparr>"
  from Cons.prems have src: "source_of fs (curFile line) = Inr (pre @ l @ delimLabel # rest)"
    by (simp add: rest_def)
  from Cons.prems have l: "delimLabel \<notin> set l" "length l < defaultBufSize"
    by auto
  have step: "Next_ReadSlice fs line off = (Ok l, line1, off + of_nat (length l + 1))"
    unfolding line1_def rd1_def
    using Cons.prems(2,3,4) src l by (rule Next_ReadSlice_hit)
  have "\<exists>line'. drain_ReadSlice (Suc (length ls)) fs line1 (off + of_nat (length l + 1)) =
           Some (ls, Err (at_EOF fs line1 EOF), line',
                 off + of_nat (length l + 1)
                   + of_nat (sum_list (map (\<lambda>l. length l + 1) ls)))"
  proof (rule Cons.IH [where pre = "pre @ l @ [delimLabel]" and rd = rd1])
    show "\<forall>l\<in>set ls. delimLabel \<notin> set l \<and> length l < defaultBufSize"
      using Cons.prems(1) by simp
    show "closed line1 \<noteq> 1"
      using Cons.prems(2) by (simp add: line1_def)
    show "reader line1 = Some rd1"
      by (simp add: line1_def)
    show "r_pos rd1 = length (pre @ l @ [delimLabel])"
      by (simp add: rd1_def)
    show "source_of fs (curFile line1) =
            Inr ((pre @ l @ [delimLabel]) @ concat (map (\<lambda>l. l @ [delimLabel]) ls))"
      using src by (simp add: line1_def source_of_def rest_def)
  qed
  then obtain line' where
    "drain_ReadSlice (Suc (length ls)) fs line1 (off + of_nat (length l + 1)) =
       Some (ls, Err (at_EOF fs line EOF), line',
             off + of_nat (length l + 1)
               + of_nat (sum_list (map (\<lambda>l. length l + 1) ls)))"
    by (auto simp: line1_def at_EOF_reader)
  with step show ?case
    by (simp add: add.assoc)
qed

lemma S1_lines_ok:
  "\<forall>l\<in>set S1_lines. CHR 0x0A \<notin> set l \<and> length l < MaxScanTokenSize"
  "\<forall>l\<in>set S1_lines. delimLabel \<notin> set l \<and> length l < defaultBufSize"
  "map dropCR S1_lines = S1_lines"
  "sum_list (map (\<lambda>l. length (dropCR l)) S1_lines) = 151"
  "sum_list (map (\<lambda>l. length l + 1) S1_lines) = 161"
  "Suc (length S1_lines) = 11"
  by (simp_all add: S1_lines_def MaxScanTokenSize_def defaultBufSize_def delimLabel_def dropCR_def)

lemma length_S1_bytes: "length S1_bytes = 161"
  by (simp add: S1_bytes_def S1_lines_def)

lemma at_EOF_one_file:
  "at_EOF (one_file bytes) (opened_at n) EOF = EOF"
  "at_EOF (one_file bytes) (opened_at_ReadSlice n) EOF = EOF"
  by (simp_all add: at_EOF_order one_file_def opened_at_def opened_at_ReadSlice_def a_log_def)

lemma source_S1:
  "source_of (one_file S1_bytes) (curFile (opened_at 0)) =
     Inr ([] @ concat (map (\<lambda>l. l @ [CHR 0x0A]) S1_lines))"
  "source_of (one_file S1_bytes) (curFile (opened_at_ReadSlice 0)) =
     Inr ([] @ concat (map (\<lambda>l. l @ [delimLabel]) S1_lines))"
  by (simp_all add: source_of_def one_file_def opened_at_def opened_at_ReadSlice_def a_log_def
      S1_bytes_def delimLabel_def)

lemma drain_S1:
  "\<exists>line'. drain 11 (one_file S1_bytes) (opened_at 0) 0 = Some (S1_lines, Err EOF, line', 151)"
proof -
  define sc0 where "sc0 = \<lparr>s_pos = 0, s_err = None, s_held = [], s_token = []\<rparr>"
  have a: "closed (opened_at 0) \<noteq> 1" "reader (opened_at 0) = Some sc0" "s_err sc0 = None"
    "s_pos sc0 = length ([] :: string)"
    by (simp_all add: opened_at_def sc0_def)
  from drain_lines [OF S1_lines_ok(1) a source_S1(1), of 0] obtain line' where
    "drain (Suc (length S1_lines)) (one_file S1_bytes) (opened_at 0) 0 =
       Some (map dropCR S1_lines, Err (at_EOF (one_file S1_bytes) (opened_at 0) EOF), line',
             0 + of_nat (sum_list (map (\<lambda>l. length (dropCR l)) S1_lines)))"
    by blast
  then have "drain 11 (one_file S1_bytes) (opened_at 0) 0 = Some (S1_lines, Err EOF, line', 151)"
    by (simp only: S1_lines_ok at_EOF_one_file add_0 of_nat_numeral)
  then show ?thesis
    by blast
qed

lemma drain_ReadSlice_S1:
  "\<exists>line'. drain_ReadSlice 11 (one_file S1_bytes) (opened_at_ReadSlice 0) 0 =
             Some (S1_lines, Err EOF, line', 161)"
proof -
  define rd0 where "rd0 = \<lparr>r_pos = 0\<rparr>"
  have a: "closed (opened_at_ReadSlice 0) \<noteq> 1" "reader (opened_at_ReadSlice 0) = Some rd0"
    "r_pos rd0 = length ([] :: string)"
    by (simp_all add: opened_at_ReadSlice_def rd0_def)
  from drain_ReadSlice_lines [OF S1_lines_ok(2) a source_S1(2), of 0] obtain line' where
    "drain_ReadSlice (Suc (length S1_lines)) (one_file S1_bytes) (opened_at_ReadSlice 0) 0 =
       Some (S1_lines, Err (at_EOF (one_file S1_bytes) (opened_at_ReadSlice 0) EOF), line',
             0 + of_nat (sum_list (map (\<lambda>l. length l + 1) S1_lines)))"
    by blast
  then have "drain_ReadSlice 11 (one_file S1_bytes) (opened_at_ReadSlice 0) 0 =
               Some (S1_lines, Err EOF, line', 161)"
    by (simp only: S1_lines_ok at_EOF_one_file add_0 of_nat_numeral)
  then show ?thesis
    by blast
qed

lemma open_S1: "NewLineReader (one_file S1_bytes) ''a.log'' 0 = Inr (opened_at 0)"
  by (simp add: NewLineReader_def readOpen_def OpenFile_def one_file_def Seek_def
        seek_target_def NewScanner_def opened_at_def a_log_def)

lemma open_ReadSlice_S1:
  "NewLineReader_ReadSlice (one_file S1_bytes) ''a.log'' 0 = Inr (opened_at_ReadSlice 0)"
  by (simp add: NewLineReader_ReadSlice_def readOpen_def OpenFile_def one_file_def Seek_def
        seek_target_def NewReader_def opened_at_ReadSlice_def a_log_def)

text \<open>
  C6, as stated, fails: after the ten records the offset is 161 in the
  \<open>ReadSlice\<close>-based reader and 151 in the scanner-based one, in neither 155.
\<close>

theorem S1_offset_155_counterexample:
  "NewLineReader_ReadSlice (one_file S1_bytes) ''a.log'' 0 = Inr (opened_at_ReadSlice 0)
   \<and> (case drain_ReadSlice 11 (one_file S1_bytes) (opened_at_ReadSlice 0) 0 of
         None \<Rightarrow> False
       | Some (msgs, r, line, off) \<Rightarrow> msgs = S1_lines \<and> r = Err EOF \<and> off = 161 \<and> off \<noteq> 155)
   \<and> NewLineReader (one_file S1_bytes) ''a.log'' 0 = Inr (opened_at 0)
   \<and> (case drain 11 (one_file S1_bytes) (opened_at 0) 0 of
         None \<Rightarrow> False
       | Some (msgs, r, line, off) \<Rightarrow> msgs = S1_lines \<and> r = Err EOF \<and> off = 151 \<and> off \<noteq> 155)"
  using drain_S1 drain_ReadSlice_S1 by (auto simp: open_S1 open_ReadSlice_S1)

text \<open>
  C6, amended. The file of the ten lines \<open>test_line_log=1\<close> to \<open>test_line_log=10\<close>,
  each ended by a line feed, is 161 bytes long. A reader started on it at offset 0
  yields the ten records in order, delimiters stripped, and its next call yields plain
  \<open>io.EOF\<close>; the offset of the \<open>ReadSlice\<close>-based reader is then 161, the length of
  the ten lines with their delimiters.
\<close>

theorem S1_basic_read:
  "length S1_bytes = 161
   \<and> NewLineReader_ReadSlice (one_file S1_bytes) ''a.log'' 0 = Inr (opened_at_ReadSlice 0)
   \<and> (case drain_ReadSlice 11 (one_file S1_bytes) (opened_at_ReadSlice 0) 0 of
         None \<Rightarrow> False
       | Some (msgs, r, line, off) \<Rightarrow> msgs = S1_lines \<and> r = Err EOF \<and> off = 161)
   \<and> NewLineReader (one_file S1_bytes) ''a.log'' 0 = Inr (opened_at 0)
   \<and> (case drain 11 (one_file S1_bytes) (opened_at 0) 0 of
         None \<Rightarrow> False
       | Some (msgs, r, line, off) \<Rightarrow> msgs = S1_lines \<and> r = Err EOF)"
  using drain_S1 drain_ReadSlice_S1 by (auto simp: length_S1_bytes open_S1 open_ReadSlice_S1)

section \<open>The harvester: switching files, the checkpoint, the reader cell\<close>

lemma initReaderFromWait_PreFileINode:
  "PreFileINode (meta (snd (initReaderFromWait fs beater))) = PreFileINode (meta beater)"
  by (simp add: initReaderFromWait_def Let_def split: sum.splits option.splits)

lemma switchNextFile_PreFileINode:
  "PreFileINode (meta (snd (switchNextFile fs beater))) = PreFileINode (meta beater)"
  by (simp add: switchNextFile_def Let_def initReaderFromWait_PreFileINode split: option.splits)

lemma ident_a: "String_StateOS (GetOSState a_info) = ''7-1''"
  by (simp add: String_StateOS_def GetOSState_def a_info_def AppendUint10_small)

lemma ident_b: "String_StateOS (GetOSState b_info) = ''8-1''"
  by (simp add: String_StateOS_def GetOSState_def b_info_def AppendUint10_small)

lemma open_b: "NewLineReader two_files ''b.log'' 0 =
   Inr \<lparr>closed = 0, originName = ''b.log'',
        curFile = \<lparr>fname = ''b.log'', fnode = 1, fflag = O_RDONLY, foffset = 0, fclosed = False\<rparr>,
        reader = Some \<lparr>s_pos = 0, s_err = None, s_held = [], s_token = []\<rparr>\<rparr>"
  by (simp add: NewLineReader_def readOpen_def OpenFile_def two_files_def Seek_def
        seek_target_def NewScanner_def)

lemma Name_b: "Name b_info = ''b.log''"
  by (simp add: b_info_def)

lemma switch_on_a_log:
  "switchNextFile two_files on_a_log =
     (Ok (),
      \<lparr>curReader = Some \<lparr>closed = 0, originName = ''b.log'',
           curFile = \<lparr>fname = ''b.log'', fnode = 1, fflag = O_RDONLY, foffset = 0, fclosed = False\<rparr>,
           reader = Some \<lparr>s_pos = 0, s_err = None, s_held = [], s_token = []\<rparr>\<rparr>,
       meta = \<lparr>CurFile = ''b.log'', CurFileINode = ''8-1'', CurOffset = 0, PreFileINode = []\<rparr>,
       sinks = [], waitDealFiles = [b_info], errlog = []\<rparr>)"
  by (simp add: switchNextFile_def initReaderFromWait_def on_a_log_def ident_a ident_b open_b
      Name_b Let_def)


text \<open>
  C4 at a failing input: the harvester has read \<open>a.log\<close> (identity \<open>7-1\<close>) and
  \<open>b.log\<close> is pending. \<open>switchNextFile\<close> returns, the checkpoint names \<open>b.log\<close>
  (identity \<open>8-1\<close>), and \<open>PreFileINode\<close> is still empty: no statement of the package
  assigns the field (lemma \<open>switchNextFile_PreFileINode\<close>: it never changes).
\<close>

theorem switchNextFile_leaves_PreFileINode:
  "CurFileINode (meta on_a_log) = ''7-1''
   \<and> fst (switchNextFile two_files on_a_log) = Ok ()
   \<and> CurFile (meta (snd (switchNextFile two_files on_a_log))) = ''b.log''
   \<and> CurFileINode (meta (snd (switchNextFile two_files on_a_log))) = ''8-1''
   \<and> PreFileINode (meta (snd (switchNextFile two_files on_a_log))) = []"
  by (simp add: switch_on_a_log) (simp add: on_a_log_def)

lemma Unmarshal_ByValue:
  "fst (Unmarshal js data (ByValue m)) =
     Some (if Valid js data then InvalidUnmarshalError else SyntaxError)"
  by (simp add: Unmarshal_def)

lemma Init_on_document:
  "Init js (w\<lparr>metaFile := Inr data\<rparr>) beater =
     (if Valid js data then Some InvalidUnmarshalError else None, w\<lparr>metaFile := Inr data\<rparr>, beater)"
  by (simp add: Init_def Unmarshal_def)

text \<open>
  C2 on every input: whatever checkpoint \<open>reportAndSyncMetadata\<close> has written,
  \<open>Init\<close> reads the document and passes the checkpoint struct to \<open>json.Unmarshal\<close>
  by value, so a valid document makes \<open>Init\<close> fail with \<open>InvalidUnmarshalError\<close>, an
  invalid one makes it return early, and in neither case is a field of the
  harvester changed. A harvester built after a checkpoint was written either is not
  built, or starts from the empty checkpoint with no reader.
\<close>

theorem Init_never_loads_checkpoint:
  "Init js (reportAndSyncMetadata js w beater) beater0 =
     (if Valid js (Marshal js (meta beater)) then Some InvalidUnmarshalError else None,
      reportAndSyncMetadata js w beater, beater0)
   \<and> NewHarvester js (reportAndSyncMetadata js w beater) =
     (if Valid js (Marshal js (meta beater)) then Inl InvalidUnmarshalError else Inr fresh,
      reportAndSyncMetadata js w beater)
   \<and> meta fresh = Metadata_zero \<and> curReader fresh = None"
  by (simp add: reportAndSyncMetadata_def Init_on_document NewHarvester_def fresh_def)

lemma initReaderFromMetadata_empty:
  "CurFile (meta beater) = [] \<Longrightarrow> initReaderFromMetadata fs beater = (None, beater)"
  by (simp add: initReaderFromMetadata_def)

lemma Close_harvester_nil: "curReader beater = None \<Longrightarrow> Close_harvester beater = (Panic, beater)"
  by (simp add: Close_harvester_def)

lemma innerRun_nil:
  "curReader beater = None \<Longrightarrow> innerRun (Suc n) js w beater = Some (Panic, w, beater)"
  by simp

text \<open>
  C10. With an empty checkpoint and nothing in the reader cell,
  \<open>initReaderFromMetadata\<close> stores nothing, and both \<open>Close\<close> of the harvester and the
  first turn of \<open>innerRun\<close> (with any fuel) panic on the type assertion instead of
  returning an error; nothing has changed when they do.
\<close>

theorem nil_reader_cell_panics:
  "curReader beater = None \<and> CurFile (meta beater) = [] \<longrightarrow>
     initReaderFromMetadata fs beater = (None, beater)
     \<and> curReader (snd (initReaderFromMetadata fs beater)) = None
     \<and> Close_harvester beater = (Panic, beater)
     \<and> innerRun (Suc n) js w beater = Some (Panic, w, beater)"
  by (simp add: initReaderFromMetadata_empty Close_harvester_nil)

lemma NewHarvester_first_run:
  "NewHarvester js first_run = (Inr fresh, first_run\<lparr>metaFile := Inr []\<rparr>)"
  by (simp add: NewHarvester_def Init_def Init_reader_def initReaderFromMetadata_def first_run_def
      fresh_def Metadata_zero_def Is_ErrNotExist_def)

theorem nil_reader_cell_panics_witness:
  "NewHarvester no_json first_run = (Inr fresh, first_run\<lparr>metaFile := Inr []\<rparr>)
   \<and> curReader fresh = None \<and> CurFile (meta fresh) = []
   \<and> Close_harvester fresh = (Panic, fresh)
   \<and> innerRun (Suc 0) no_json (first_run\<lparr>metaFile := Inr []\<rparr>) fresh
        = Some (Panic, first_run\<lparr>metaFile := Inr []\<rparr>, fresh)"
  using nil_reader_cell_panics [of fresh two_files 0 no_json "first_run\<lparr>metaFile := Inr []\<rparr>"]
  by (simp add: NewHarvester_first_run) (simp add: fresh_def Metadata_zero_def)

section \<open>The scanner of the file set: files already dealt with\<close>

lemma take_index_where:
  "take (case index_where p xs of None \<Rightarrow> length xs | Some i \<Rightarrow> i) xs = takeWhile (\<lambda>x. \<not> p x) xs"
  by (induction xs) (auto split: option.splits)

lemma ignoreAlreadDeal_takeWhile:
  "ignoreAlreadDeal sort_Slice beater source =
     takeWhile (\<lambda>item. String_StateOS (GetOSState item) \<noteq> CurFileINode (meta beater))
       (sort_Slice After source)"
proof -
  have "(\<lambda>x. \<not> CurFileINode (meta beater) = String_StateOS (GetOSState x)) =
          (\<lambda>item. String_StateOS (GetOSState item) \<noteq> CurFileINode (meta beater))"
    by auto
  then show ?thesis
    by (simp add: ignoreAlreadDeal_def Let_def take_index_where)
qed

lemma takeWhile_split:
  assumes "\<exists>x\<in>set xs. \<not> q x"
  shows "\<exists>e rest. xs = takeWhile q xs @ e # rest \<and> \<not> q e"
proof -
  from assms have "dropWhile q xs \<noteq> []"
    by simp
  then obtain e rest where d: "dropWhile q xs = e # rest"
    by (cases "dropWhile q xs") auto
  then have "\<not> q e"
    using hd_dropWhile [of q xs] by simp
  moreover have "xs = takeWhile q xs @ e # rest"
    using d takeWhile_dropWhile_id [of q xs] by simp
  ultimately show ?thesis
    by blast
qed

text \<open>
  C5. Given that \<open>sort.Slice\<close> does what it promises (it rearranges the entries so
  that none is modified after one before it), \<open>ignoreAlreadDeal\<close> works on the
  entries sorted by modification time, newest first, and returns exactly the entries
  before the first one whose identity string equals the checkpoint's \<open>CurFileINode\<close>:
  none of the entries returned has that identity, the entry that follows them has it,
  and when no entry has it the whole sorted list is returned.
\<close>

theorem ignoreAlreadDeal_prefix:
  assumes perm: "mset (sort_Slice After source) = mset source"
    and srt: "sorted_wrt (\<lambda>a b. \<not> After b a) (sort_Slice After source)"
  shows "mset (sort_Slice After source) = mset source
         \<and> sorted_wrt (\<lambda>a b. ModTime b \<le> ModTime a) (sort_Slice After source)
         \<and> ignoreAlreadDeal sort_Slice beater source =
             takeWhile (\<lambda>item. String_StateOS (GetOSState item) \<noteq> CurFileINode (meta beater))
               (sort_Slice After source)
         \<and> (\<forall>item\<in>set (ignoreAlreadDeal sort_Slice beater source).
               String_StateOS (GetOSState item) \<noteq> CurFileINode (meta beater))
         \<and> (if \<exists>item\<in>set (sort_Slice After source).
                  String_StateOS (GetOSState item) = CurFileINode (meta beater)
             then \<exists>e rest. sort_Slice After source =
                               ignoreAlreadDeal sort_Slice beater source @ e # rest
                    \<and> String_StateOS (GetOSState e) = CurFileINode (meta beater)
             else ignoreAlreadDeal sort_Slice beater source = sort_Slice After source)"
proof -
  let ?q = "\<lambda>item. String_StateOS (GetOSState item) \<noteq> CurFileINode (meta beater)"
  let ?s = "sort_Slice After source"
  let ?res = "ignoreAlreadDeal sort_Slice beater source"
  have r: "?res = takeWhile ?q ?s"
    by (rule ignoreAlreadDeal_takeWhile)
  have "(\<lambda>a b. \<not> After b a) = (\<lambda>a b. ModTime b \<le> ModTime a)"
    by (auto simp: After_def fun_eq_iff)
  with srt have 2: "sorted_wrt (\<lambda>a b. ModTime b \<le> ModTime a) ?s"
    by simp
  have 3: "\<forall>item\<in>set ?res. ?q item"
    unfolding r by (auto dest: set_takeWhileD)
  have 4: "if \<exists>item\<in>set ?s. String_StateOS (GetOSState item) = CurFileINode (meta beater)
           then \<exists>e rest. ?s = ?res @ e # rest
                  \<and> String_StateOS (GetOSState e) = CurFileINode (meta beater)
           else ?res = ?s"
  proof (cases "\<exists>item\<in>set ?s. String_StateOS (GetOSState item) = CurFileINode (meta beater)")
    case True
    then have "\<exists>x\<in>set ?s. \<not> ?q x"
      by blast
    from takeWhile_split [OF this] obtain e rest where
      "?s = takeWhile ?q ?s @ e # rest" "\<not> ?q e"
      by blast
    then have "\<exists>e rest. ?s = ?res @ e # rest
                 \<and> String_StateOS (GetOSState e) = CurFileINode (meta beater)"
      unfolding r by blast
    with True show ?thesis
      by (simp only: if_True)
  next
    case False
    then have "takeWhile ?q ?s = ?s"
      by (simp add: takeWhile_eq_all_conv)
    then have "?res = ?s"
      unfolding r .
    with False show ?thesis
      by (simp only: if_False)
  qed
  show ?thesis
    by (intro conjI perm 2 r 3 4)
qed

text \<open>The insertion sort keeps the promise of \<open>sort.Slice\<close> for the order \<open>After\<close>.\<close>

lemma mset_insert_left: "mset (insert_left lt x ys) = add_mset x (mset ys)"
  by (induction ys) auto

lemma set_insert_left: "set (insert_left lt x ys) = insert x (set ys)"
  by (induction ys) auto

lemma sorted_insert_left:
  "sorted_wrt (\<lambda>a b. ModTime a \<le> ModTime b) ys \<Longrightarrow>
     sorted_wrt (\<lambda>a b. ModTime a \<le> ModTime b) (insert_left After x ys)"
  by (induction ys) (auto simp: set_insert_left After_def)

lemma foldl_insert_left:
  "mset (foldl (\<lambda>acc x. insert_left lt x acc) acc xs) = mset xs + mset acc"
  by (induction xs arbitrary: acc) (auto simp: mset_insert_left)

lemma sorted_foldl_insert_left:
  "sorted_wrt (\<lambda>a b. ModTime a \<le> ModTime b) acc \<Longrightarrow>
     sorted_wrt (\<lambda>a b. ModTime a \<le> ModTime b) (foldl (\<lambda>acc x. insert_left After x acc) acc xs)"
  by (induction xs arbitrary: acc) (auto simp: sorted_insert_left)

lemma mset_insertionSort: "mset (insertionSort lt xs) = mset xs"
  by (simp add: insertionSort_def foldl_insert_left)

lemma sorted_insertionSort:
  "sorted_wrt (\<lambda>a b. \<not> After b a) (insertionSort After xs)"
proof -
  have "sorted_wrt (\<lambda>a b. ModTime a \<le> ModTime b) (foldl (\<lambda>acc x. insert_left After x acc) [] xs)"
    by (rule sorted_foldl_insert_left) simp
  then have "sorted_wrt (\<lambda>a b. ModTime b \<le> ModTime a) (insertionSort After xs)"
    by (simp add: insertionSort_def sorted_wrt_rev)
  moreover have "(\<lambda>a b. \<not> After b a) = (\<lambda>a b. ModTime b \<le> ModTime a)"
    by (auto simp: After_def fun_eq_iff)
  ultimately show ?thesis
    by simp
qed

lemma insertionSort_a_b: "insertionSort After [a_info, b_info] = [b_info, a_info]"
  by (simp add: insertionSort_def After_def a_info_def b_info_def)

theorem ignoreAlreadDeal_prefix_witness:
  "insertionSort After [a_info, b_info] = [b_info, a_info]
   \<and> CurFileINode (meta on_a_log) = ''7-1''
   \<and> ignoreAlreadDeal insertionSort on_a_log [a_info, b_info] = [b_info]"
proof -
  have c: "CurFileINode (meta on_a_log) = ''7-1''"
    by (simp add: on_a_log_def)
  from ignoreAlreadDeal_prefix [of insertionSort "[a_info, b_info]" on_a_log,
      OF mset_insertionSort sorted_insertionSort]
  have "ignoreAlreadDeal insertionSort on_a_log [a_info, b_info] =
          takeWhile (\<lambda>item. String_StateOS (GetOSState item) \<noteq> CurFileINode (meta on_a_log))
            (insertionSort After [a_info, b_info])"
    by blast
  then have "ignoreAlreadDeal insertionSort on_a_log [a_info, b_info] = [b_info]"
    by (simp add: insertionSort_a_b ident_a ident_b c)
  with c show ?thesis
    by (simp add: insertionSort_a_b)
qed

section \<open>The error \<open>ErrorEmpty\<close>\<close>

lemma source_of_not_ErrorEmpty: "source_of fs f \<noteq> Inl ErrorEmpty"
  by (simp add: source_of_def)

lemma Scan_keeps:
  assumes "s_err sc \<noteq> Some ErrorEmpty" "src \<noteq> Inl ErrorEmpty"
  shows "s_err (snd (Scan src sc)) \<noteq> Some ErrorEmpty"
proof (cases "s_err sc")
  case (Some e)
  with assms show ?thesis
    by (simp add: Scan_def split: prod.splits option.splits)
next
  case None
  show ?thesis
  proof (cases src)
    case (Inl e)
    with assms None show ?thesis
      by (simp add: Scan_def)
  next
    case (Inr bytes)
    with None show ?thesis
      by (simp add: Scan_def Let_def split: prod.splits option.splits)
  qed
qed

lemma Err_Scanner_Some: "Err_Scanner sc = Some e \<Longrightarrow> s_err sc = Some e"
  by (auto simp: Err_Scanner_def split: option.splits if_splits)

lemma at_EOF_not_ErrorEmpty: "e \<noteq> ErrorEmpty \<Longrightarrow> at_EOF fs line e \<noteq> ErrorEmpty"
  by (auto simp: at_EOF_def readOpen_def OpenFile_def Is_ErrNotExist_def split: sum.splits)

lemma Next_no_ErrorEmpty:
  assumes "holds_no_ErrorEmpty line"
  shows "fst (Next fs line off) \<noteq> Err ErrorEmpty"
    and "holds_no_ErrorEmpty (fst (snd (Next fs line off)))"
proof -
  have "fst (Next fs line off) \<noteq> Err ErrorEmpty
        \<and> holds_no_ErrorEmpty (fst (snd (Next fs line off)))"
  proof (cases "closed line = 1")
    case True
    with assms show ?thesis
      by (simp add: Next_def)
  next
    case c: False
    show ?thesis
    proof (cases "reader line")
      case None
      with c assms show ?thesis
        by (simp add: Next_def)
    next
      case (Some sc)
      obtain b sc' where s: "Scan (source_of fs (curFile line)) sc = (b, sc')"
        by force
      from assms Some have "s_err sc \<noteq> Some ErrorEmpty"
        by (simp add: holds_no_ErrorEmpty_def)
      then have k: "s_err sc' \<noteq> Some ErrorEmpty"
        using Scan_keeps [OF _ source_of_not_ErrorEmpty, of sc fs "curFile line"] s by simp
      show ?thesis
      proof (cases b)
        case True
        with c Some s k show ?thesis
          by (simp add: Next_def Let_def holds_no_ErrorEmpty_def)
      next
        case False
        define err where "err = (case Err_Scanner sc' of None \<Rightarrow> EOF | Some e \<Rightarrow> e)"
        have e: "err \<noteq> ErrorEmpty"
          using k Err_Scanner_Some [of sc'] by (auto simp: err_def split: option.splits)
        then have ne: "(if Is_EOF err then at_EOF fs line err else err) \<noteq> ErrorEmpty"
          by (simp add: at_EOF_not_ErrorEmpty)
        have "Next fs line off =
                (Err (if Is_EOF err then at_EOF fs line err else err),
                 line\<lparr>reader := Some sc'\<rparr>, off)"
          using c Some s False by (simp add: Next_def Let_def err_def)
        with ne k show ?thesis
          by (simp add: holds_no_ErrorEmpty_def)
      qed
    qed
  qed
  then show "fst (Next fs line off) \<noteq> Err ErrorEmpty"
    and "holds_no_ErrorEmpty (fst (snd (Next fs line off)))"
    by simp_all
qed

lemma Next_ReadSlice_no_ErrorEmpty: "fst (Next_ReadSlice fs line off) \<noteq> Err ErrorEmpty"
proof (cases "closed line = 1")
  case True
  then show ?thesis
    by (simp add: Next_ReadSlice_def)
next
  case c: False
  show ?thesis
  proof (cases "reader line")
    case None
    with c show ?thesis
      by (simp add: Next_ReadSlice_def)
  next
    case (Some rd)
    obtain msg e rd' where
      s: "ReadSlice (source_of fs (curFile line)) rd delimLabel = (msg, e, rd')"
      using prod_cases3 by blast
    show ?thesis
    proof (cases e)
      case None
      with c Some s show ?thesis
        by (simp add: Next_ReadSlice_def)
    next
      case (Some err)
      have "err \<noteq> ErrorEmpty"
        using s Some
        by (auto simp: ReadSlice_def Let_def source_of_def split: sum.splits option.splits if_splits)
      then have "(if Is_EOF err then at_EOF fs line err else err) \<noteq> ErrorEmpty"
        by (simp add: at_EOF_not_ErrorEmpty)
      with c \<open>reader line = Some rd\<close> s Some show ?thesis
        by (simp add: Next_ReadSlice_def)
    qed
  qed
qed

lemma Close_no_ErrorEmpty:
  "fst (Close line) \<noteq> Some ErrorEmpty"
  by (simp add: Close_def Close_File_def split: prod.splits)

lemma Close_holds: "holds_no_ErrorEmpty (snd (Close line))"
  by (simp add: Close_def holds_no_ErrorEmpty_def split: prod.splits)

lemma NewLineReader_no_ErrorEmpty: "NewLineReader fs name offset \<noteq> Inl ErrorEmpty"
  by (simp add: NewLineReader_def readOpen_def OpenFile_def Let_def split: sum.splits)

lemma NewLineReader_ReadSlice_no_ErrorEmpty:
  "NewLineReader_ReadSlice fs name offset \<noteq> Inl ErrorEmpty"
  by (simp add: NewLineReader_ReadSlice_def readOpen_def OpenFile_def Let_def split: sum.splits)

lemma NewLineReader_holds:
  "NewLineReader fs name offset = Inr line \<Longrightarrow> holds_no_ErrorEmpty line"
  using NewLineReader_Inr [of fs name offset line]
  by (auto simp: holds_no_ErrorEmpty_def NewScanner_def)

lemma reachable_reader_holds: "reachable_reader line \<Longrightarrow> holds_no_ErrorEmpty line"
  by (induction rule: reachable_reader.induct)
    (simp_all add: NewLineReader_holds Next_no_ErrorEmpty Close_holds)


lemma harvester_inv_curReader:
  "harvester_inv beater \<Longrightarrow> holds_no_ErrorEmpty rd \<Longrightarrow> harvester_inv (beater\<lparr>curReader := Some rd\<rparr>)"
  by (simp add: harvester_inv_def)

lemma harvester_inv_fields:
  "harvester_inv (beater\<lparr>meta := m\<rparr>) = harvester_inv beater"
  "harvester_inv (beater\<lparr>sinks := ss\<rparr>) = harvester_inv beater"
  "harvester_inv (beater\<lparr>waitDealFiles := fl\<rparr>) = harvester_inv beater"
  by (simp_all add: harvester_inv_def)

lemma initReaderFromMetadata_no_ErrorEmpty:
  "fst (initReaderFromMetadata fs beater) \<noteq> Some ErrorEmpty"
  using NewLineReader_no_ErrorEmpty [of fs "CurFile (meta beater)" "CurOffset (meta beater)"]
  by (auto simp: initReaderFromMetadata_def split: sum.splits)

lemma initReaderFromMetadata_inv:
  assumes "harvester_inv beater"
  shows "harvester_inv (snd (initReaderFromMetadata fs beater))"
proof (cases "NewLineReader fs (CurFile (meta beater)) (CurOffset (meta beater))")
  case (Inl e)
  with assms show ?thesis
    by (simp add: initReaderFromMetadata_def)
next
  case (Inr rd)
  then have "holds_no_ErrorEmpty rd"
    by (rule NewLineReader_holds)
  with assms Inr show ?thesis
    by (simp add: initReaderFromMetadata_def harvester_inv_curReader)
qed

lemma close_old_inv:
  assumes "harvester_inv beater"
  shows "harvester_inv (case curReader beater of None \<Rightarrow> beater
                        | Some old \<Rightarrow> beater\<lparr>curReader := Some (snd (Close old))\<rparr>)"
  using assms by (simp add: harvester_inv_curReader Close_holds split: option.splits)

lemma initReaderFromWait_no_ErrorEmpty:
  "fst (initReaderFromWait fs beater) \<noteq> Err ErrorEmpty"
proof (cases "waitDealFiles beater = []")
  case True
  then show ?thesis
    by (simp add: initReaderFromWait_def)
next
  case False
  then show ?thesis
    using NewLineReader_no_ErrorEmpty [of fs "Name (last (waitDealFiles beater))" 0]
    by (auto simp: initReaderFromWait_def Let_def split: sum.splits)
qed

lemma initReaderFromWait_Inr:
  assumes "waitDealFiles beater \<noteq> []"
    and "NewLineReader fs (Name (last (waitDealFiles beater))) 0 = Inr rd"
  shows "snd (initReaderFromWait fs beater) =
           beater\<lparr>meta := (meta beater)
                     \<lparr>CurFile := Name (last (waitDealFiles beater)), CurOffset := 0,
                      CurFileINode := String_StateOS (GetOSState (last (waitDealFiles beater)))\<rparr>,
                  curReader := Some rd\<rparr>"
  using assms by (simp add: initReaderFromWait_def Let_def split: option.splits)

lemma initReaderFromWait_inv:
  assumes "harvester_inv beater"
  shows "harvester_inv (snd (initReaderFromWait fs beater))"
proof (cases "waitDealFiles beater = []")
  case True
  with assms show ?thesis
    by (simp add: initReaderFromWait_def)
next
  case ne: False
  show ?thesis
  proof (cases "NewLineReader fs (Name (last (waitDealFiles beater))) 0")
    case (Inl e)
    with ne assms show ?thesis
      by (simp add: initReaderFromWait_def Let_def harvester_inv_fields)
  next
    case (Inr rd)
    then have h: "holds_no_ErrorEmpty rd"
      by (rule NewLineReader_holds)
    with assms show ?thesis
      by (simp add: initReaderFromWait_Inr [OF ne Inr] harvester_inv_fields
          harvester_inv_curReader)
  qed
qed

lemma switchNextFile_unfold:
  "\<exists>beater2. switchNextFile fs beater = initReaderFromWait fs beater2
      \<and> (harvester_inv beater \<longrightarrow> harvester_inv beater2)"
proof -
  define beater1 where "beater1 = (case curReader beater of None \<Rightarrow> beater
                        | Some old \<Rightarrow> beater\<lparr>curReader := Some (snd (Close old))\<rparr>)"
  define beater2 where "beater2 =
            (case index_where (\<lambda>fi. CurFileINode (meta beater1) = String_StateOS (GetOSState fi))
                    (waitDealFiles beater1) of
               None \<Rightarrow> beater1
             | Some pos \<Rightarrow>
                 beater1\<lparr>waitDealFiles :=
                   take pos (waitDealFiles beater1) @ drop (pos + 1) (waitDealFiles beater1)\<rparr>)"
  have "switchNextFile fs beater = initReaderFromWait fs beater2"
    by (simp only: switchNextFile_def Let_def beater1_def beater2_def)
  moreover have "harvester_inv beater2" if "harvester_inv beater"
  proof -
    from that have "harvester_inv beater1"
      unfolding beater1_def by (rule close_old_inv)
    then show ?thesis
      by (simp add: beater2_def harvester_inv_fields split: option.splits)
  qed
  ultimately show ?thesis
    by blast
qed

lemma switchNextFile_no_ErrorEmpty: "fst (switchNextFile fs beater) \<noteq> Err ErrorEmpty"
  using switchNextFile_unfold [of fs beater] initReaderFromWait_no_ErrorEmpty by auto

lemma switchNextFile_inv:
  "harvester_inv beater \<Longrightarrow> harvester_inv (snd (switchNextFile fs beater))"
  using switchNextFile_unfold [of fs beater] initReaderFromWait_inv by auto

lemma Close_harvester_no_ErrorEmpty: "fst (Close_harvester beater) \<noteq> Err ErrorEmpty"
proof (cases "curReader beater")
  case None
  then show ?thesis
    by (simp add: Close_harvester_def)
next
  case (Some rd)
  then show ?thesis
    using Close_no_ErrorEmpty [of rd]
    by (auto simp: Close_harvester_def split: prod.splits option.splits)
qed

lemma Close_harvester_inv:
  assumes "harvester_inv beater"
  shows "harvester_inv (snd (Close_harvester beater))"
proof (cases "curReader beater")
  case None
  with assms show ?thesis
    by (simp add: Close_harvester_def)
next
  case (Some rd)
  have "harvester_inv (beater\<lparr>curReader := Some (snd (Close rd))\<rparr>)"
    using assms Close_holds by (rule harvester_inv_curReader)
  with Some show ?thesis
    by (auto simp: Close_harvester_def split: prod.splits option.splits)
qed

lemma Init_reader_props:
  "fst (Init_reader w beater) \<noteq> Some ErrorEmpty"
  "harvester_inv beater \<Longrightarrow> harvester_inv (snd (snd (Init_reader w beater)))"
proof -
  obtain e1 b1 where 1: "initReaderFromMetadata (files w) beater = (e1, b1)"
    by force
  obtain e2 b2 where 2: "initReaderFromMetadata (files w) (b1\<lparr>meta := Metadata_zero\<rparr>) = (e2, b2)"
    by force
  have n1: "e1 \<noteq> Some ErrorEmpty"
    using initReaderFromMetadata_no_ErrorEmpty [of "files w" beater] 1 by simp
  have n2: "e2 \<noteq> Some ErrorEmpty"
    using initReaderFromMetadata_no_ErrorEmpty [of "files w" "b1\<lparr>meta := Metadata_zero\<rparr>"] 2
    by simp
  show "fst (Init_reader w beater) \<noteq> Some ErrorEmpty"
    using 1 2 n1 n2 by (auto simp: Init_reader_def split: option.splits)
  show "harvester_inv (snd (snd (Init_reader w beater)))" if "harvester_inv beater"
  proof -
    have i1: "harvester_inv b1"
      using initReaderFromMetadata_inv [OF that, of "files w"] 1 by simp
    then have "harvester_inv (b1\<lparr>meta := Metadata_zero\<rparr>)"
      by (simp add: harvester_inv_fields)
    then have i2: "harvester_inv b2"
      using initReaderFromMetadata_inv [of "b1\<lparr>meta := Metadata_zero\<rparr>" "files w"] 2 by simp
    show ?thesis
      using 1 2 i1 i2 by (simp add: Init_reader_def split: option.splits)
  qed
qed

lemma Init_props:
  "fst (Init js w beater) \<noteq> Some ErrorEmpty"
  "harvester_inv beater \<Longrightarrow> harvester_inv (snd (snd (Init js w beater)))"
proof -
  show "fst (Init js w beater) \<noteq> Some ErrorEmpty"
    using Init_reader_props(1)
    by (simp add: Init_def Unmarshal_def split: sum.splits option.splits)
  show "harvester_inv (snd (snd (Init js w beater)))" if "harvester_inv beater"
    using that Init_reader_props(2)
    by (simp add: Init_def Unmarshal_def split: sum.splits option.splits)
qed

lemma harvester_inv_fresh:
  "harvester_inv \<lparr>curReader = None, meta = Metadata_zero, sinks = [], waitDealFiles = [],
                   errlog = []\<rparr>"
  by (simp add: harvester_inv_def)

lemma NewHarvester_no_ErrorEmpty: "fst (NewHarvester js w) \<noteq> Inl ErrorEmpty"
  using Init_props(1) [of js w "\<lparr>curReader = None, meta = Metadata_zero, sinks = [],
      waitDealFiles = [], errlog = []\<rparr>"]
  by (auto simp: NewHarvester_def Let_def split: prod.splits option.splits)

lemma NewHarvester_inv:
  assumes "NewHarvester js w = (Inr beater, w')"
  shows "harvester_inv beater"
  using assms Init_props(2) [OF harvester_inv_fresh, of js w]
  by (auto simp: NewHarvester_def Let_def split: prod.splits option.splits)


lemma OnError_inv: "harvester_inv beater \<Longrightarrow> err \<noteq> ErrorEmpty \<Longrightarrow> harvester_inv (OnError beater err)"
  by (simp add: OnError_def harvester_inv_def)

lemma innerRun_props:
  assumes "harvester_inv beater" and "innerRun n js w beater = Some (r, w', beater')"
  shows "harvester_inv beater' \<and> r \<noteq> Err ErrorEmpty"
  using assms
proof (induction n arbitrary: w beater)
  case 0
  then show ?case
    by simp
next
  case (Suc n)
  show ?case
  proof (cases "curReader beater")
    case None
    with Suc.prems show ?thesis
      by auto
  next
    case (Some rd)
    obtain res rd' off' where nx: "Next (files w) rd (CurOffset (meta beater)) = (res, rd', off')"
      using prod_cases3 by blast
    define beater1 where
      "beater1 = beater\<lparr>curReader := Some rd', meta := (meta beater)\<lparr>CurOffset := off'\<rparr>\<rparr>"
    from Suc.prems(1) Some have "holds_no_ErrorEmpty rd"
      by (simp add: harvester_inv_def)
    from Next_no_ErrorEmpty [OF this, of "files w" "CurOffset (meta beater)"] nx
    have res: "res \<noteq> Err ErrorEmpty" and rd': "holds_no_ErrorEmpty rd'"
      by simp_all
    have i1: "harvester_inv beater1"
      using Suc.prems(1) rd' by (simp add: beater1_def harvester_inv_def)
    show ?thesis
    proof (cases res)
      case (Ok msg)
      define beater2 where "beater2 = beater1\<lparr>sinks := map (\<lambda>sink. sink @ [msg]) (sinks beater1)\<rparr>"
      have i2: "harvester_inv beater2"
        using i1 by (simp add: beater2_def harvester_inv_fields)
      from Suc.prems(2) Some nx Ok
      have "innerRun n js (reportAndSyncMetadata js w beater2) beater2 = Some (r, w', beater')"
        by (simp add: beater1_def beater2_def Let_def)
      with i2 show ?thesis
        by (rule Suc.IH)
    next
      case (Err err)
      with res have ne: "err \<noteq> ErrorEmpty"
        by simp
      show ?thesis
      proof (cases "err = ErrorRemoved \<or> err = ErrorRename")
        case True
        obtain sr b2 where sw: "switchNextFile (files w) beater1 = (sr, b2)"
          by force
        have i2: "harvester_inv b2"
          using switchNextFile_inv [OF i1, of "files w"] sw by simp
        from Suc.prems(2) Some nx Err True sw
        have c: "(case sr of Blocked \<Rightarrow> Some (Blocked, w, b2) | Panic \<Rightarrow> Some (Panic, w, b2)
                   | _ \<Rightarrow> innerRun n js w b2) = Some (r, w', beater')"
          by (simp add: beater1_def Let_def split: result.splits)
        show ?thesis
        proof (cases sr)
          case (Ok u)
          with c have "innerRun n js w b2 = Some (r, w', beater')"
            by simp
          with i2 show ?thesis
            by (rule Suc.IH)
        next
          case (Err e)
          with c have "innerRun n js w b2 = Some (r, w', beater')"
            by simp
          with i2 show ?thesis
            by (rule Suc.IH)
        next
          case Panic
          with c i2 show ?thesis
            by auto
        next
          case Blocked
          with c i2 show ?thesis
            by auto
        qed
      next
        case False
        from Suc.prems(2) Some nx Err False
        have "(if err = EOF then Some (Ok (), w, beater1) else Some (Ok (), w, OnError beater1 err))
                = Some (r, w', beater')"
          by (auto simp: beater1_def Let_def split: if_splits)
        then show ?thesis
          using i1 OnError_inv [OF i1 ne] by (auto split: if_splits)
      qed
    next
      case Panic
      with Suc.prems(2) Some nx i1 show ?thesis
        by (auto simp: beater1_def Let_def)
    next
      case Blocked
      with Suc.prems(2) Some nx i1 show ?thesis
        by (auto simp: beater1_def Let_def)
    qed
  qed
qed

lemma reachable_harvester_inv: "reachable_harvester beater \<Longrightarrow> harvester_inv beater"
proof (induction rule: reachable_harvester.induct)
  case (built js w beater w')
  then show ?case
    by (rule NewHarvester_inv)
next
  case (registered beater)
  then show ?case
    by (simp add: RegisterSink_def harvester_inv_fields)
next
  case (refreshed beater fl)
  then show ?case
    by (simp add: harvester_inv_fields)
next
  case (initialised beater js w)
  then show ?case
    by (simp add: Init_props)
next
  case (adopted beater fs)
  then show ?case
    by (simp add: initReaderFromWait_inv)
next
  case (ran beater n js w r w' beater')
  then show ?case
    using innerRun_props by blast
next
  case (closing beater)
  then show ?case
    by (simp add: Close_harvester_inv)
qed


text \<open>
  C9. \<open>ErrorEmpty\<close> is declared and never returned. The constructors, \<open>Close\<close>
  and \<open>Next\<close> of the \<open>ReadSlice\<close>-based reader do not return it on any input;
  \<open>Next\<close> of the scanner-based reader does not return it on any reader a program can
  hold; no operation of the harvester returns it or hands it to \<open>OnError\<close> on any
  harvester a program can hold, \<open>innerRun\<close> included with any fuel. A line that is
  empty is returned as the empty record, with no error, by both readers.
\<close>

theorem ErrorEmpty_never_returned:
  "NewLineReader fs name offset \<noteq> Inl ErrorEmpty
   \<and> NewLineReader_ReadSlice fs name offset \<noteq> Inl ErrorEmpty
   \<and> fst (Next_ReadSlice fs line0 off) \<noteq> Err ErrorEmpty
   \<and> fst (Close line0) \<noteq> Some ErrorEmpty
   \<and> (reachable_reader line \<longrightarrow>
         fst (Next fs line off) \<noteq> Err ErrorEmpty \<and> fst (Close line) \<noteq> Some ErrorEmpty)
   \<and> fst (NewHarvester js w) \<noteq> Inl ErrorEmpty
   \<and> (reachable_harvester beater \<longrightarrow>
         fst (Init js w beater) \<noteq> Some ErrorEmpty
         \<and> fst (initReaderFromMetadata fs beater) \<noteq> Some ErrorEmpty
         \<and> fst (initReaderFromWait fs beater) \<noteq> Err ErrorEmpty
         \<and> fst (switchNextFile fs beater) \<noteq> Err ErrorEmpty
         \<and> fst (Close_harvester beater) \<noteq> Err ErrorEmpty
         \<and> (\<forall>n r w' beater'. innerRun n js w beater = Some (r, w', beater') \<longrightarrow>
                r \<noteq> Err ErrorEmpty \<and> ErrorEmpty \<notin> set (errlog beater'))
         \<and> ErrorEmpty \<notin> set (errlog beater))
   \<and> (closed line1 \<noteq> 1 \<and> reader line1 = Some sc \<and> s_err sc = None \<and> s_pos sc = length pre
        \<and> source_of fs (curFile line1) = Inr (pre @ CHR 0x0A # rest) \<longrightarrow>
         fst (Next fs line1 off) = Ok [])
   \<and> (closed line2 \<noteq> 1 \<and> reader line2 = Some rd \<and> r_pos rd = length pre
        \<and> source_of fs (curFile line2) = Inr (pre @ delimLabel # rest) \<longrightarrow>
         fst (Next_ReadSlice fs line2 off) = Ok [])"
proof (intro conjI impI allI)
  show "NewLineReader fs name offset \<noteq> Inl ErrorEmpty"
    by (rule NewLineReader_no_ErrorEmpty)
  show "NewLineReader_ReadSlice fs name offset \<noteq> Inl ErrorEmpty"
    by (rule NewLineReader_ReadSlice_no_ErrorEmpty)
  show "fst (Next_ReadSlice fs line0 off) \<noteq> Err ErrorEmpty"
    by (rule Next_ReadSlice_no_ErrorEmpty)
  show "fst (Close line0) \<noteq> Some ErrorEmpty"
    by (rule Close_no_ErrorEmpty)
  show "fst (Next fs line off) \<noteq> Err ErrorEmpty" if "reachable_reader line"
    using that by (intro Next_no_ErrorEmpty reachable_reader_holds)
  show "fst (Close line) \<noteq> Some ErrorEmpty"
    by (rule Close_no_ErrorEmpty)
  show "fst (NewHarvester js w) \<noteq> Inl ErrorEmpty"
    by (rule NewHarvester_no_ErrorEmpty)
  show "fst (Init js w beater) \<noteq> Some ErrorEmpty"
    by (rule Init_props)
  show "fst (initReaderFromMetadata fs beater) \<noteq> Some ErrorEmpty"
    by (rule initReaderFromMetadata_no_ErrorEmpty)
  show "fst (initReaderFromWait fs beater) \<noteq> Err ErrorEmpty"
    by (rule initReaderFromWait_no_ErrorEmpty)
  show "fst (switchNextFile fs beater) \<noteq> Err ErrorEmpty"
    by (rule switchNextFile_no_ErrorEmpty)
  show "fst (Close_harvester beater) \<noteq> Err ErrorEmpty"
    by (rule Close_harvester_no_ErrorEmpty)
  show "r \<noteq> Err ErrorEmpty"
    if "reachable_harvester beater" "innerRun n js w beater = Some (r, w', beater')"
    for n r w' beater'
    using innerRun_props [OF reachable_harvester_inv [OF that(1)] that(2)] by simp
  show "ErrorEmpty \<notin> set (errlog beater')"
    if "reachable_harvester beater" "innerRun n js w beater = Some (r, w', beater')"
    for n r w' beater'
    using innerRun_props [OF reachable_harvester_inv [OF that(1)] that(2)]
    by (simp add: harvester_inv_def)
  show "ErrorEmpty \<notin> set (errlog beater)" if "reachable_harvester beater"
    using reachable_harvester_inv [OF that] by (simp add: harvester_inv_def)
  show "fst (Next fs line1 off) = Ok []"
    if "closed line1 \<noteq> 1 \<and> reader line1 = Some sc \<and> s_err sc = None \<and> s_pos sc = length pre
        \<and> source_of fs (curFile line1) = Inr (pre @ CHR 0x0A # rest)"
    using that Next_hit [of line1 sc pre fs "[]" rest off]
    by (simp add: MaxScanTokenSize_def dropCR_def)
  show "fst (Next_ReadSlice fs line2 off) = Ok []"
    if "closed line2 \<noteq> 1 \<and> reader line2 = Some rd \<and> r_pos rd = length pre
        \<and> source_of fs (curFile line2) = Inr (pre @ delimLabel # rest)"
    using that Next_ReadSlice_hit [of line2 rd pre fs "[]" rest off]
    by (simp add: defaultBufSize_def)
qed

lemma reachable_opened_at: "reachable_reader (opened_at 0)"
proof -
  have "NewLineReader (one_file [CHR 0x0A]) ''a.log'' 0 = Inr (opened_at 0)"
    by (simp add: NewLineReader_def readOpen_def OpenFile_def one_file_def Seek_def
        seek_target_def NewScanner_def opened_at_def a_log_def)
  then show ?thesis
    by (rule reachable_reader.opened)
qed

lemma reachable_fresh: "reachable_harvester fresh"
  using NewHarvester_first_run [of no_json] by (rule reachable_harvester.built)

theorem ErrorEmpty_never_returned_witness:
  "reachable_reader (opened_at 0) \<and> reachable_harvester fresh
   \<and> fst (Next (one_file [CHR 0x0A]) (opened_at 0) 0) = Ok []
   \<and> fst (Next_ReadSlice (one_file [CHR 0x0A]) (opened_at_ReadSlice 0) 0) = Ok []
   \<and> fst (Next (one_file [CHR 0x0A]) (opened_at 0) 0) \<noteq> Err ErrorEmpty
   \<and> fst (Close_harvester fresh) \<noteq> Err ErrorEmpty
   \<and> ErrorEmpty \<notin> set (errlog fresh)"
proof -
  have s: "source_of (one_file [CHR 0x0A]) (curFile (opened_at 0)) = Inr ([] @ CHR 0x0A # [])"
    "source_of (one_file [CHR 0x0A]) (curFile (opened_at_ReadSlice 0)) = Inr ([] @ delimLabel # [])"
    by (simp_all add: source_of_def one_file_def opened_at_def opened_at_ReadSlice_def a_log_def
        delimLabel_def)
  have a: "closed (opened_at 0) \<noteq> 1"
    "reader (opened_at 0) = Some \<lparr>s_pos = 0, s_err = None, s_held = [], s_token = []\<rparr>"
    "closed (opened_at_ReadSlice 0) \<noteq> 1" "reader (opened_at_ReadSlice 0) = Some \<lparr>r_pos = 0\<rparr>"
    by (simp_all add: opened_at_def opened_at_ReadSlice_def)
  from ErrorEmpty_never_returned [of "one_file [CHR 0x0A]" "''a.log''" 0 "opened_at_ReadSlice 0" 0
      "opened_at 0" no_json first_run fresh "opened_at 0"
      "\<lparr>s_pos = 0, s_err = None, s_held = [], s_token = []\<rparr>" "[]" "[]"
      "opened_at_ReadSlice 0" "\<lparr>r_pos = 0\<rparr>"]
    reachable_opened_at reachable_fresh s a
  show ?thesis
    by simp
qed

end
